theory Spec2Isabelle
  imports Complex_Main
begin

section \<open>Deadline interrupt handlers (src/ts/index.ts, lines 157-163)\<close>

text \<open>
  A JavaScript \<open>number\<close> is an IEEE double. The only operation the source applies to one
  is the relational operator \<open>>\<close>, which compares the exact mathematical values of its
  operands and is false as soon as one of them is \<open>NaN\<close>; no rounding takes place. Every
  finite double is a rational, so a finite number is modelled by a rational (both zeros
  are \<open>Finite 0\<close>, which \<open>>\<close> does not tell apart either).
\<close>

datatype number = NaN | NegInfinity | Finite rat | PosInfinity

text \<open>The operator \<open>a > b\<close> of the language.\<close>

fun js_gt :: "number \<Rightarrow> number \<Rightarrow> bool" where
  "js_gt NaN b = False"
| "js_gt a NaN = False"
| "js_gt NegInfinity b = False"
| "js_gt (Finite x) NegInfinity = True"
| "js_gt (Finite x) (Finite y) = (y < x)"
| "js_gt (Finite x) PosInfinity = False"
| "js_gt PosInfinity PosInfinity = False"
| "js_gt PosInfinity b = True"

text \<open>
  A \<open>Date\<close> object holds a time value: an integral number of milliseconds since the epoch,
  or \<open>NaN\<close> for an invalid date. \<open>getTime\<close> returns it.
\<close>

datatype Date = InvalidDate | ValidDate int

fun getTime :: "Date \<Rightarrow> number" where
  "getTime InvalidDate = NaN"
| "getTime (ValidDate t) = Finite (of_int t)"

text \<open>
  \<open>Date.now()\<close> reads the host clock: an integral number of milliseconds. The reading is
  an argument of whatever runs it.
\<close>

definition Date_now :: "int \<Rightarrow> number" where
  "Date_now clock = Finite (of_int clock)"

text \<open>The parameter type \<open>Date | number\<close>; \<open>typeof deadline === "number"\<close> is the tag.\<close>

datatype deadline = DeadlineNumber number | DeadlineDate Date

text \<open>
  An interrupt handler is polled by the engine and answers whether to interrupt. The
  handler built here ignores its arguments and reads the clock, so it is a function of the
  clock reading at the poll.
\<close>

type_synonym InterruptHandler = "int \<Rightarrow> bool"

text \<open>The local constant \<open>deadlineAsNumber\<close> of the function body.\<close>

definition deadlineAsNumber :: "deadline \<Rightarrow> number" where
  "deadlineAsNumber deadline =
     (case deadline of DeadlineNumber n \<Rightarrow> n | DeadlineDate d \<Rightarrow> getTime d)"

definition shouldInterruptAfterDeadline :: "deadline \<Rightarrow> InterruptHandler" where
  "shouldInterruptAfterDeadline deadline =
     (\<lambda>clock. js_gt (Date_now clock) (deadlineAsNumber deadline))"

subsection \<open>The specification's reading of a deadline\<close>

text \<open>
  The specification describes the argument as "a deadline (absolute time or duration)".
  \<open>spec_deadline_passed\<close> follows these words: an absolute time has passed when the clock
  is beyond it, a duration has passed when the clock is beyond the time the handler was
  built plus the duration. \<open>spec_argument\<close> is the argument a caller hands to the source
  function for each: the parameter type offers a number for a duration.
\<close>

datatype spec_deadline = AbsoluteTime int | Duration int

fun spec_deadline_passed :: "int \<Rightarrow> spec_deadline \<Rightarrow> int \<Rightarrow> bool" where
  "spec_deadline_passed built (AbsoluteTime t) clock = (t < clock)"
| "spec_deadline_passed built (Duration d) clock = (built + d < clock)"

fun spec_argument :: "spec_deadline \<Rightarrow> deadline" where
  "spec_argument (AbsoluteTime t) = DeadlineDate (ValidDate t)"
| "spec_argument (Duration d) = DeadlineNumber (Finite (of_int d))"

subsection \<open>The engine's polling of the handler\<close>

text \<open>
  Modelled from the spec: the runtime's \<open>setInterruptHandler\<close> and the engine's evaluation
  loop live in \<open>runtime.ts\<close> and in the compiled engine, neither of which is in
  \<open>index.ts\<close>. The specification (4.3) says that \<open>setInterruptHandler\<close> "installs a
  callback invoked periodically by the engine during script execution; returning true
  aborts the running script with an Interrupted fault".

  The script evaluated is an infinite loop, so the only way out is the handler. The
  \<open>k\<close>-th poll reads the clock \<open>clock k\<close>. An evaluation that never returns is \<open>None\<close>.
\<close>

datatype fault = Interrupted

datatype eval_result = EvalSuccess | EvalFailure fault

record runtime =
  interruptHandler :: "InterruptHandler option"

definition setInterruptHandler :: "InterruptHandler \<Rightarrow> runtime \<Rightarrow> runtime" where
  "setInterruptHandler h rt = rt\<lparr>interruptHandler := Some h\<rparr>"

partial_function (option) evalInfiniteLoop ::
  "runtime \<Rightarrow> (nat \<Rightarrow> int) \<Rightarrow> nat \<Rightarrow> eval_result option" where
  "evalInfiniteLoop rt clock k =
     (case interruptHandler rt of
        None \<Rightarrow> evalInfiniteLoop rt clock (Suc k)
      | Some h \<Rightarrow>
          if h (clock k) then Some (EvalFailure Interrupted)
          else evalInfiniteLoop rt clock (Suc k))"

section \<open>Modules, promises and the state of the process\<close>

text \<open>A thrown or rejected value: an \<open>Error\<close> with its message.\<close>

datatype error = Error string

text \<open>
  The two compiled binaries: \<open>./quickjs.emscripten-module\<close> and
  \<open>./quickjs-asyncify.emscripten-module\<close>.
\<close>

datatype binary = QuickJSBinary | QuickJSAsyncifyBinary

text \<open>
  An instantiated binary module, as its loader returns it: which instantiation it is,
  which binary it was made from, and its property \<open>type\<close> (\<open>None\<close> while not assigned).
\<close>

record EmscriptenModule =
  instance_id :: nat
  binary :: binary
  type_tag :: "string option"

text \<open>The two foreign-function wrappers; each keeps the module it was constructed on.\<close>

datatype QuickJSFFI = QuickJSFFI EmscriptenModule

datatype QuickJSAsyncFFI = QuickJSAsyncFFI EmscriptenModule

text \<open>
  The two module classes. \<open>new\<close> gives every object an identity of its own; the
  constructors keep their two arguments.
\<close>

record QuickJSWASMModule =
  module_id :: nat
  wasm_module :: EmscriptenModule
  ffi :: QuickJSFFI

record QuickJSAsyncWASMModule =
  async_module_id :: nat
  async_wasm_module :: EmscriptenModule
  async_ffi :: QuickJSAsyncFFI

text \<open>
  What the host does to one factory call, from outside the program: whether the three
  dynamic imports gathered by \<open>Promise.all\<close> reject, and whether the loader's
  instantiation of the binary rejects (\<open>None\<close>: it succeeds).
\<close>

record load =
  imports_rejected :: "error option"
  instantiation_rejected :: "error option"

text \<open>
  Promises of a \<open>QuickJSWASMModule\<close>. A promise is pending, with the reactions registered
  on it, or settled for good. Two kinds of reaction occur: the callback
  \<open>(instance) => { singleton = instance; return instance }\<close> given to \<open>then\<close>, with the
  promise that \<open>then\<close> returned, and the continuation \<open>return await singletonPromise\<close> of a
  call of \<open>getQuickJS\<close>, with the promise of that call. Promises are referred to by their
  position in the heap of promises.
\<close>

datatype outcome = Fulfilled QuickJSWASMModule | Rejected error

datatype reaction = ThenStore nat | AwaitReturn nat

datatype promise_state = Pending "reaction list" | Settled outcome

datatype job = Job reaction outcome

text \<open>
  The state of the process: the two module-level variables, the heap of promises, the
  queue of promise jobs, the promises of the invocations of \<open>newQuickJSWASMModule\<close> made
  by \<open>getQuickJS\<close> (in order), and the counters from which \<open>new\<close> and the loader take
  identities.
\<close>

record process =
  singleton :: "QuickJSWASMModule option"
  singletonPromise :: "nat option"
  promises :: "promise_state list"
  microtasks :: "job list"
  constructions :: "nat list"
  next_object :: nat
  next_instance :: nat

definition init :: process where
  "init = \<lparr>singleton = None, singletonPromise = None, promises = [], microtasks = [],
            constructions = [], next_object = 0, next_instance = 0\<rparr>"

section \<open>Module factories (src/ts/index.ts, lines 80-116)\<close>

text \<open>
  Modelled from the spec: the loader exported by the compiled binary's module, which is
  not in \<open>index.ts\<close>. The specification (6) says each entry point "must instantiate a
  compiled binary module first (external collaborator)": a call that does not reject
  returns a new instantiation of its binary.
\<close>

definition wasmModuleLoader ::
  "binary \<Rightarrow> load \<Rightarrow> process \<Rightarrow> (error + EmscriptenModule) \<times> process" where
  "wasmModuleLoader b l s =
     (case instantiation_rejected l of
        Some e \<Rightarrow> (Inl e, s)
      | None \<Rightarrow>
          (Inr \<lparr>instance_id = next_instance s, binary = b, type_tag = None\<rparr>,
           s\<lparr>next_instance := Suc (next_instance s)\<rparr>))"

text \<open>
  The two factories, run to completion: the outcome their promise settles with and the
  state they leave. Their bodies read and write no variable of the module; the objects they
  make with \<open>new\<close> take their identity from \<open>next_object\<close>. Each \<open>await\<close> of the body is a
  point where the call can reject: the imports first, then the loader.
\<close>

definition newQuickJSWASMModule ::
  "load \<Rightarrow> process \<Rightarrow> (error + QuickJSWASMModule) \<times> process" where
  "newQuickJSWASMModule l s =
     (case imports_rejected l of
        Some e \<Rightarrow> (Inl e, s)
      | None \<Rightarrow>
          (case wasmModuleLoader QuickJSBinary l s of
             (Inl e, s1) \<Rightarrow> (Inl e, s1)
           | (Inr loaded, s1) \<Rightarrow>
               (let wasmModule = loaded\<lparr>type_tag := Some ''sync''\<rparr>;
                    ffi = QuickJSFFI wasmModule
                in (Inr \<lparr>module_id = next_object s1, wasm_module = wasmModule, ffi = ffi\<rparr>,
                    s1\<lparr>next_object := Suc (next_object s1)\<rparr>))))"

definition newQuickJSAsyncWASMModule ::
  "load \<Rightarrow> process \<Rightarrow> (error + QuickJSAsyncWASMModule) \<times> process" where
  "newQuickJSAsyncWASMModule l s =
     (case imports_rejected l of
        Some e \<Rightarrow> (Inl e, s)
      | None \<Rightarrow>
          (case wasmModuleLoader QuickJSAsyncifyBinary l s of
             (Inl e, s1) \<Rightarrow> (Inl e, s1)
           | (Inr loaded, s1) \<Rightarrow>
               (let wasmModule = loaded\<lparr>type_tag := Some ''async''\<rparr>;
                    ffi = QuickJSAsyncFFI wasmModule
                in (Inr \<lparr>async_module_id = next_object s1, async_wasm_module = wasmModule,
                         async_ffi = ffi\<rparr>,
                    s1\<lparr>next_object := Suc (next_object s1)\<rparr>))))"

section \<open>The shared module instance (src/ts/index.ts, lines 34-70)\<close>

subsection \<open>Promise operations\<close>

text \<open>The promise at a position of the heap, if there is one.\<close>

definition promise_at :: "process \<Rightarrow> nat \<Rightarrow> promise_state option" where
  "promise_at s p = (if p < length (promises s) then Some (promises s ! p) else None)"

text \<open>A new pending promise.\<close>

definition new_promise :: "process \<Rightarrow> nat \<times> process" where
  "new_promise s = (length (promises s), s\<lparr>promises := promises s @ [Pending []]\<rparr>)"

text \<open>
  Settling a pending promise queues one job for each reaction registered on it, in order;
  a settled promise stays as it is.
\<close>

definition settle_promise :: "nat \<Rightarrow> outcome \<Rightarrow> process \<Rightarrow> process" where
  "settle_promise p v s =
     (case promise_at s p of
        Some (Pending rs) \<Rightarrow>
          s\<lparr>promises := (promises s)[p := Settled v],
            microtasks := microtasks s @ map (\<lambda>r. Job r v) rs\<rparr>
      | _ \<Rightarrow> s)"

text \<open>
  Registering a reaction (\<open>then\<close>, \<open>await\<close>): kept on a pending promise, queued as a job at
  once on a settled one.
\<close>

definition perform_then :: "nat \<Rightarrow> reaction \<Rightarrow> process \<Rightarrow> process" where
  "perform_then p r s =
     (case promise_at s p of
        Some (Pending rs) \<Rightarrow> s\<lparr>promises := (promises s)[p := Pending (rs @ [r])]\<rparr>
      | Some (Settled v) \<Rightarrow> s\<lparr>microtasks := microtasks s @ [Job r v]\<rparr>
      | None \<Rightarrow> s)"

subsection \<open>The accessors\<close>

text \<open>
  \<open>getQuickJS\<close> up to its \<open>await\<close>: it returns the promise of the call. The operator
  \<open>??=\<close> evaluates its right-hand side only when \<open>singletonPromise\<close> is undefined.
  Invoking \<open>newQuickJSWASMModule()\<close> starts the factory and returns its pending promise,
  recorded in \<open>constructions\<close>; the factory completes later, when the host has loaded the
  binary (\<open>factory_completes\<close> below). \<open>then\<close> returns the derived promise that is stored,
  and \<open>await\<close> registers the rest of the call on the stored promise.
\<close>

definition getQuickJS :: "process \<Rightarrow> nat \<times> process" where
  "getQuickJS s =
     (let (result, s1) = new_promise s;
          (awaited, s2) =
            (case singletonPromise s1 of
               Some p \<Rightarrow> (p, s1)
             | None \<Rightarrow>
                 (let (construction, sa) = new_promise s1;
                      sb = sa\<lparr>constructions := constructions sa @ [construction]\<rparr>;
                      (derived, sc) = new_promise sb;
                      sd = perform_then construction (ThenStore derived) sc
                  in (derived, sd\<lparr>singletonPromise := Some derived\<rparr>)))
      in (result, perform_then awaited (AwaitReturn result) s2))"

text \<open>The synchronous accessor: it throws, or returns the instance in \<open>singleton\<close>.\<close>

definition getQuickJSSync :: "process \<Rightarrow> error + QuickJSWASMModule" where
  "getQuickJSSync s =
     (case singleton s of
        None \<Rightarrow> Inl (Error ''QuickJS not initialized. Await getQuickJS() at least once.'')
      | Some instance \<Rightarrow> Inr instance)"

text \<open>
  Running one promise job. The \<open>then\<close> callback stores the instance and returns it, which
  fulfils the derived promise; \<open>then\<close> was given no rejection handler, so a rejection
  passes to the derived promise. The \<open>await\<close> continuation returns the value, or throws
  the reason, out of the call of \<open>getQuickJS\<close>. A module object has no method \<open>then\<close>, so
  a promise resolved with one is fulfilled with it at once.
\<close>

fun run_job :: "job \<Rightarrow> process \<Rightarrow> process" where
  "run_job (Job (ThenStore derived) (Fulfilled instance)) s =
     settle_promise derived (Fulfilled instance) (s\<lparr>singleton := Some instance\<rparr>)"
| "run_job (Job (ThenStore derived) (Rejected e)) s =
     settle_promise derived (Rejected e) s"
| "run_job (Job (AwaitReturn result) v) s = settle_promise result v s"

section \<open>Asynchronous runtimes and contexts (src/ts/index.ts, lines 129-149)\<close>

text \<open>The option objects are passed on as they are; \<open>None\<close> is an omitted argument.\<close>

typedecl AsyncRuntimeOptions

typedecl ContextOptions

text \<open>
  Modelled from the spec: the methods \<open>newRuntime\<close> and \<open>newContext\<close> of the asynchronous
  module class, which is not in \<open>index.ts\<close>. The specification (2, 3) has a runtime own one
  engine instance and a context live inside a runtime; the objects made by a module's
  methods live in that module.
\<close>

record QuickJSAsyncRuntime =
  runtime_module :: QuickJSAsyncWASMModule
  runtime_options :: "AsyncRuntimeOptions option"

record QuickJSAsyncContext =
  context_runtime :: QuickJSAsyncRuntime
  context_options :: "ContextOptions option"

definition newRuntime ::
  "QuickJSAsyncWASMModule \<Rightarrow> AsyncRuntimeOptions option \<Rightarrow> QuickJSAsyncRuntime" where
  "newRuntime m options = \<lparr>runtime_module = m, runtime_options = options\<rparr>"

definition newContext ::
  "QuickJSAsyncWASMModule \<Rightarrow> ContextOptions option \<Rightarrow> QuickJSAsyncContext" where
  "newContext m options =
     \<lparr>context_runtime = newRuntime m None, context_options = options\<rparr>"

text \<open>
  The two functions, run to completion: each awaits a module from
  \<open>newQuickJSAsyncWASMModule()\<close> and calls the method on that module.
\<close>

definition newAsyncRuntime ::
  "AsyncRuntimeOptions option \<Rightarrow> load \<Rightarrow> process
   \<Rightarrow> (error + QuickJSAsyncRuntime) \<times> process" where
  "newAsyncRuntime options l s =
     (case newQuickJSAsyncWASMModule l s of
        (Inl e, s1) \<Rightarrow> (Inl e, s1)
      | (Inr asyncModule, s1) \<Rightarrow> (Inr (newRuntime asyncModule options), s1))"

definition newAsyncContext ::
  "ContextOptions option \<Rightarrow> load \<Rightarrow> process
   \<Rightarrow> (error + QuickJSAsyncContext) \<times> process" where
  "newAsyncContext options l s =
     (case newQuickJSAsyncWASMModule l s of
        (Inl e, s1) \<Rightarrow> (Inl e, s1)
      | (Inr asyncModule, s1) \<Rightarrow> (Inr (newContext asyncModule options), s1))"

section \<open>Executions\<close>

text \<open>
  What can happen next in the process: host code calls an exported function, the host
  completes a pending invocation of the factory made by \<open>getQuickJS\<close>, or the next promise
  job runs. Calls may fall between any two jobs, which is more than the language allows
  and so covers every execution.
\<close>

datatype event =
    CallGetQuickJS
  | CallGetQuickJSSync
  | FactoryCompletes nat load
  | RunMicrotask
  | CallNewQuickJSWASMModule load
  | CallNewQuickJSAsyncWASMModule load
  | CallNewAsyncRuntime "AsyncRuntimeOptions option" load
  | CallNewAsyncContext "ContextOptions option" load

text \<open>
  The host completes the invocation of the factory whose promise is \<open>p\<close>, the loading
  having gone as \<open>l\<close> says: the body of the factory runs and its outcome settles the
  promise. Only an invocation made by \<open>getQuickJS\<close> and still pending can complete.
\<close>

definition is_pending :: "process \<Rightarrow> nat \<Rightarrow> bool" where
  "is_pending s p = (case promise_at s p of Some (Pending rs) \<Rightarrow> True | _ \<Rightarrow> False)"

definition factory_completes :: "nat \<Rightarrow> load \<Rightarrow> process \<Rightarrow> process" where
  "factory_completes p l s =
     (if p \<in> set (constructions s) \<and> is_pending s p then
        (case newQuickJSWASMModule l s of
           (Inl e, s1) \<Rightarrow> settle_promise p (Rejected e) s1
         | (Inr instance, s1) \<Rightarrow> settle_promise p (Fulfilled instance) s1)
      else s)"

text \<open>The host runs the first job of the queue, if there is one.\<close>

definition run_microtask :: "process \<Rightarrow> process" where
  "run_microtask s =
     (case microtasks s of
        [] \<Rightarrow> s
      | j # js \<Rightarrow> run_job j (s\<lparr>microtasks := js\<rparr>))"

fun step :: "event \<Rightarrow> process \<Rightarrow> process" where
  "step CallGetQuickJS s = snd (getQuickJS s)"
| "step CallGetQuickJSSync s = s"
| "step (FactoryCompletes p l) s = factory_completes p l s"
| "step RunMicrotask s = run_microtask s"
| "step (CallNewQuickJSWASMModule l) s = snd (newQuickJSWASMModule l s)"
| "step (CallNewQuickJSAsyncWASMModule l) s = snd (newQuickJSAsyncWASMModule l s)"
| "step (CallNewAsyncRuntime options l) s = snd (newAsyncRuntime options l s)"
| "step (CallNewAsyncContext options l) s = snd (newAsyncContext options l s)"

fun run :: "event list \<Rightarrow> process \<Rightarrow> process" where
  "run [] s = s"
| "run (e # es) s = run es (step e s)"

section \<open>Notions used in the proofs\<close>

text \<open>The state after a first call of \<open>getQuickJS\<close>, written out.\<close>

definition first_call :: "process \<Rightarrow> process" where
  "first_call s =
     s\<lparr>promises :=
         promises s @
           [Pending [], Pending [ThenStore (length (promises s) + 2)],
            Pending [AwaitReturn (length (promises s))]],
       constructions := constructions s @ [length (promises s) + 1],
       singletonPromise := Some (length (promises s) + 2)\<rparr>"

text \<open>
  The invariant of the executions. With \<open>c\<close> the promise of the one invocation of the
  factory and \<open>d\<close> the promise kept in \<open>singletonPromise\<close>: \<open>singleton\<close> holds what \<open>d\<close> is
  fulfilled with; the only reaction on \<open>c\<close> is the storing callback, the reactions on \<open>d\<close>
  are the continuations of calls, and no other promise has a reaction; every settled
  promise has the outcome of \<open>c\<close>, and a call's promise is settled only after \<open>d\<close>; every
  queued job carries the outcome of \<open>c\<close>.
\<close>

definition linked :: "process \<Rightarrow> nat \<Rightarrow> nat \<Rightarrow> bool" where
  "linked s c d \<longleftrightarrow>
     c \<noteq> d \<and> promise_at s c \<noteq> None \<and> promise_at s d \<noteq> None
   \<and> singleton s =
       (case promise_at s d of Some (Settled (Fulfilled m)) \<Rightarrow> Some m | _ \<Rightarrow> None)
   \<and> (\<forall>rs. promise_at s c = Some (Pending rs) \<longrightarrow> set rs \<subseteq> {ThenStore d})
   \<and> (\<forall>rs r. promise_at s d = Some (Pending rs) \<longrightarrow> r \<in> set rs \<longrightarrow>
         (\<exists>q. r = AwaitReturn q \<and> promise_at s q \<noteq> None \<and> q \<noteq> c \<and> q \<noteq> d))
   \<and> (\<forall>q rs. q \<noteq> c \<longrightarrow> q \<noteq> d \<longrightarrow> promise_at s q = Some (Pending rs) \<longrightarrow> rs = [])
   \<and> (\<forall>q v. promise_at s q = Some (Settled v) \<longrightarrow> promise_at s c = Some (Settled v))
   \<and> (\<forall>q v. q \<noteq> c \<longrightarrow> promise_at s q = Some (Settled v) \<longrightarrow>
         promise_at s d = Some (Settled v))
   \<and> (\<forall>r v. Job r v \<in> set (microtasks s) \<longrightarrow> promise_at s c = Some (Settled v))
   \<and> (\<forall>t v. Job (ThenStore t) v \<in> set (microtasks s) \<longrightarrow> t = d)
   \<and> (\<forall>t v. Job (AwaitReturn t) v \<in> set (microtasks s) \<longrightarrow>
         promise_at s t \<noteq> None \<and> t \<noteq> c \<and> t \<noteq> d
         \<and> promise_at s d = Some (Settled v))"

definition coherent :: "process \<Rightarrow> bool" where
  "coherent s \<longleftrightarrow>
     (case constructions s of
        [] \<Rightarrow> promises s = [] \<and> microtasks s = [] \<and> singletonPromise s = None
              \<and> singleton s = None
      | [c] \<Rightarrow> (case singletonPromise s of None \<Rightarrow> False | Some d \<Rightarrow> linked s c d)
      | _ \<Rightarrow> False)"

text \<open>
  Every pending promise is waited for: a pending \<open>d\<close> has its callback registered on \<open>c\<close>
  or queued, and a pending promise of a call has its continuation registered on \<open>d\<close> or
  queued.
\<close>

definition waited_for :: "process \<Rightarrow> nat \<Rightarrow> nat \<Rightarrow> bool" where
  "waited_for s c d \<longleftrightarrow>
     (\<forall>rs. promise_at s d = Some (Pending rs) \<longrightarrow>
        (\<exists>rs'. promise_at s c = Some (Pending rs') \<and> ThenStore d \<in> set rs')
        \<or> (\<exists>v. Job (ThenStore d) v \<in> set (microtasks s)))
   \<and> (\<forall>q rs. q \<noteq> c \<longrightarrow> q \<noteq> d \<longrightarrow> promise_at s q = Some (Pending rs) \<longrightarrow>
        (\<exists>rs'. promise_at s d = Some (Pending rs') \<and> AwaitReturn q \<in> set rs')
        \<or> (\<exists>v. Job (AwaitReturn q) v \<in> set (microtasks s)))"

definition well_formed :: "process \<Rightarrow> bool" where
  "well_formed s \<longleftrightarrow>
     coherent s \<and> (\<forall>c d. constructions s = [c] \<longrightarrow> singletonPromise s = Some d \<longrightarrow> waited_for s c d)"

section \<open>Notions used in the statements\<close>

text \<open>
  The host runs the queued jobs until none is left. Every job takes one unit of the work
  that is pending: the jobs queued and the reactions registered.
\<close>

fun reactions_count :: "promise_state \<Rightarrow> nat" where
  "reactions_count (Pending rs) = length rs"
| "reactions_count (Settled v) = 0"

definition pending_work :: "process \<Rightarrow> nat" where
  "pending_work s = length (microtasks s) + sum_list (map reactions_count (promises s))"

function drain :: "process \<Rightarrow> process" where
  "drain s = (if microtasks s = [] then s else drain (run_microtask s))"
  by pat_completeness auto

text \<open>
  Identities: those of the modules in fulfilled promises lie below the two counters;
  \<open>ids_avoided k k'\<close> says that the two identities \<open>k\<close> and \<open>k'\<close> have been handed out and
  belong to no module in a fulfilled promise.
\<close>

definition ids_bounded :: "process \<Rightarrow> bool" where
  "ids_bounded s \<longleftrightarrow>
     (\<forall>q m. promise_at s q = Some (Settled (Fulfilled m)) \<longrightarrow>
        module_id m < next_object s \<and> instance_id (wasm_module m) < next_instance s)"

definition ids_avoided :: "nat \<Rightarrow> nat \<Rightarrow> process \<Rightarrow> bool" where
  "ids_avoided k k' s \<longleftrightarrow>
     k < next_object s \<and> k' < next_instance s
     \<and> (\<forall>q m. promise_at s q = Some (Settled (Fulfilled m)) \<longrightarrow>
        module_id m \<noteq> k \<and> instance_id (wasm_module m) \<noteq> k')"

text \<open>
  The asynchronous initializer started by \<open>getQuickJS\<close> is the promise kept in
  \<open>singletonPromise\<close>; it has completed when that promise is fulfilled, and then this is
  the instance it is fulfilled with.
\<close>

definition initializer_result :: "process \<Rightarrow> QuickJSWASMModule option" where
  "initializer_result s =
     (case singletonPromise s of
        None \<Rightarrow> None
      | Some p \<Rightarrow>
          (case promise_at s p of
             Some (Settled (Fulfilled instance)) \<Rightarrow> Some instance
           | _ \<Rightarrow> None))"

text \<open>
  A call of \<open>newAsyncRuntime\<close> or of \<open>newAsyncContext\<close>, and the module in which what the
  call made lives: the module of the runtime, or of the runtime of the context.
\<close>

datatype async_call =
    NewAsyncRuntime "AsyncRuntimeOptions option"
  | NewAsyncContext "ContextOptions option"

fun module_of_call ::
  "async_call \<Rightarrow> load \<Rightarrow> process \<Rightarrow> (error + QuickJSAsyncWASMModule) \<times> process" where
  "module_of_call (NewAsyncRuntime options) l s =
     (case newAsyncRuntime options l s of
        (Inl e, s1) \<Rightarrow> (Inl e, s1)
      | (Inr rt, s1) \<Rightarrow> (Inr (runtime_module rt), s1))"
| "module_of_call (NewAsyncContext options) l s =
     (case newAsyncContext options l s of
        (Inl e, s1) \<Rightarrow> (Inl e, s1)
      | (Inr ctx, s1) \<Rightarrow> (Inr (runtime_module (context_runtime ctx)), s1))"

subsection \<open>Sample loads, modules and states\<close>

definition loads :: load where
  "loads = \<lparr>imports_rejected = None, instantiation_rejected = None\<rparr>"

definition fails :: "error \<Rightarrow> load" where
  "fails e = \<lparr>imports_rejected = None, instantiation_rejected = Some e\<rparr>"

definition first_module :: QuickJSWASMModule where
  "first_module =
     \<lparr>module_id = 0,
      wasm_module = \<lparr>instance_id = 0, binary = QuickJSBinary, type_tag = Some ''sync''\<rparr>,
      ffi = QuickJSFFI \<lparr>instance_id = 0, binary = QuickJSBinary, type_tag = Some ''sync''\<rparr>\<rparr>"

definition first_async_module :: QuickJSAsyncWASMModule where
  "first_async_module =
     \<lparr>async_module_id = 0,
      async_wasm_module =
        \<lparr>instance_id = 0, binary = QuickJSAsyncifyBinary, type_tag = Some ''async''\<rparr>,
      async_ffi =
        QuickJSAsyncFFI
          \<lparr>instance_id = 0, binary = QuickJSAsyncifyBinary, type_tag = Some ''async''\<rparr>\<rparr>"

definition second_module :: QuickJSWASMModule where
  "second_module =
     \<lparr>module_id = 1,
      wasm_module = \<lparr>instance_id = 1, binary = QuickJSBinary, type_tag = Some ''sync''\<rparr>,
      ffi = QuickJSFFI \<lparr>instance_id = 1, binary = QuickJSBinary, type_tag = Some ''sync''\<rparr>\<rparr>"

definition third_async_module :: QuickJSAsyncWASMModule where
  "third_async_module =
     \<lparr>async_module_id = 2,
      async_wasm_module =
        \<lparr>instance_id = 2, binary = QuickJSAsyncifyBinary, type_tag = Some ''async''\<rparr>,
      async_ffi =
        QuickJSAsyncFFI
          \<lparr>instance_id = 2, binary = QuickJSAsyncifyBinary, type_tag = Some ''async''\<rparr>\<rparr>"

definition one_call :: process where
  "one_call =
     \<lparr>singleton = None, singletonPromise = Some 2,
      promises = [Pending [], Pending [ThenStore 2], Pending [AwaitReturn 0]],
      microtasks = [], constructions = [1], next_object = 0, next_instance = 0\<rparr>"

definition two_calls :: process where
  "two_calls =
     \<lparr>singleton = None, singletonPromise = Some 2,
      promises = [Pending [], Pending [ThenStore 2], Pending [AwaitReturn 0, AwaitReturn 3],
                  Pending []],
      microtasks = [], constructions = [1], next_object = 0, next_instance = 0\<rparr>"

definition both_resolved :: process where
  "both_resolved =
     \<lparr>singleton = Some first_module, singletonPromise = Some 2,
      promises = [Settled (Fulfilled first_module), Settled (Fulfilled first_module),
                  Settled (Fulfilled first_module), Settled (Fulfilled first_module)],
      microtasks = [], constructions = [1], next_object = 1, next_instance = 1\<rparr>"

section \<open>The deadline handler: proofs\<close>

lemma js_gt_now_Finite [simp]:
  "js_gt (Date_now c) (Finite q) = (q < of_int c)"
  by (simp add: Date_now_def)

lemma js_gt_now_special [simp]:
  "js_gt (Date_now c) NaN = False"
  "js_gt (Date_now c) PosInfinity = False"
  "js_gt (Date_now c) NegInfinity = True"
  by (simp_all add: Date_now_def)

lemma handler_unfold:
  "shouldInterruptAfterDeadline (DeadlineNumber n) c = js_gt (Date_now c) n"
  "shouldInterruptAfterDeadline (DeadlineDate d) c = js_gt (Date_now c) (getTime d)"
  by (simp_all add: shouldInterruptAfterDeadline_def deadlineAsNumber_def)

text \<open>The modelled engine: a poll that answers true ends the evaluation at once.\<close>

lemma evalInfiniteLoop_first_poll:
  "interruptHandler rt = Some h \<Longrightarrow> h (clock k) \<Longrightarrow>
   evalInfiniteLoop rt clock k = Some (EvalFailure Interrupted)"
  by (subst evalInfiniteLoop.simps) simp

text \<open>
  The modelled engine: an evaluation of the infinite loop returns only through a poll
  that answered true, so with no handler, or with one that never fires, it hangs.
\<close>

lemma evalInfiniteLoop_result:
  assumes "evalInfiniteLoop rt clock k = Some r"
  shows "\<exists>h j. interruptHandler rt = Some h \<and> k \<le> j \<and> h (clock j)
           \<and> r = EvalFailure Interrupted"
  using assms
proof (induction rule: evalInfiniteLoop.raw_induct[rotated 1, consumes 1])
  case (1 f rt clock k r)
  then show ?case
    by (fastforce split: option.splits if_splits dest: Suc_leD)
qed

lemma evalInfiniteLoop_hangs:
  "(\<And>h k. interruptHandler rt = Some h \<Longrightarrow> \<not> h (clock k)) \<Longrightarrow>
   evalInfiniteLoop rt clock k = None"
  using evalInfiniteLoop_result[of rt clock k]
  by (cases "evalInfiniteLoop rt clock k") auto

text \<open>
  C3, as amended. The handler answers, at each poll, whether the clock reading is beyond
  the deadline, where the deadline is an absolute time: the time value of a \<open>Date\<close>, or a
  number taken as milliseconds since the epoch and compared with \<open>Date.now()\<close> as it is.
  An invalid date and the number \<open>NaN\<close> never interrupt, nor does \<open>+Infinity\<close>;
  \<open>-Infinity\<close> always does.
\<close>

theorem handler_compares_clock_with_absolute_deadline:
  "shouldInterruptAfterDeadline (DeadlineDate (ValidDate t)) clock = (t < clock)
   \<and> shouldInterruptAfterDeadline (DeadlineNumber (Finite q)) clock = (q < of_int clock)
   \<and> shouldInterruptAfterDeadline (DeadlineDate InvalidDate) clock = False
   \<and> shouldInterruptAfterDeadline (DeadlineNumber NaN) clock = False
   \<and> shouldInterruptAfterDeadline (DeadlineNumber PosInfinity) clock = False
   \<and> shouldInterruptAfterDeadline (DeadlineNumber NegInfinity) clock = True"
  by (simp add: handler_unfold)

text \<open>
  C3, as stated, fails for a duration. A handler built at clock reading 1000 from the
  duration 500 and polled at 1200 answers true (1200 > 500), although the deadline
  1000 + 500 has not passed.
\<close>

theorem handler_duration_counterexample:
  "shouldInterruptAfterDeadline (DeadlineNumber (Finite 500)) 1200 = True
   \<and> spec_argument (Duration 500) = DeadlineNumber (Finite 500)
   \<and> spec_deadline_passed 1000 (Duration 500) 1200 = False"
  by (simp add: handler_unfold)

text \<open>
  C4. Let every poll read the clock at \<open>c0\<close> or later. A handler built from a deadline
  strictly earlier than \<open>c0\<close> (a \<open>Date\<close> whose time value \<open>t\<close> is below \<open>c0\<close>, a number \<open>q\<close>
  below \<open>c0\<close>, or \<open>-Infinity\<close>) answers true at every poll; installed in a runtime that
  then evaluates an infinite loop, the evaluation returns the failure \<open>Interrupted\<close> (it
  does return: the result is \<open>Some\<close>).
\<close>

theorem past_deadline_interrupts_infinite_loop:
  assumes "\<forall>k. c0 \<le> clock k"
  shows "(t < c0 \<longrightarrow>
          (\<forall>k. shouldInterruptAfterDeadline (DeadlineDate (ValidDate t)) (clock k))
          \<and> evalInfiniteLoop
                (setInterruptHandler (shouldInterruptAfterDeadline (DeadlineDate (ValidDate t))) rt)
                clock 0
              = Some (EvalFailure Interrupted))
     \<and> (q < of_int c0 \<longrightarrow>
          (\<forall>k. shouldInterruptAfterDeadline (DeadlineNumber (Finite q)) (clock k))
          \<and> evalInfiniteLoop
                (setInterruptHandler (shouldInterruptAfterDeadline (DeadlineNumber (Finite q))) rt)
                clock 0
              = Some (EvalFailure Interrupted))
     \<and> (\<forall>k. shouldInterruptAfterDeadline (DeadlineNumber NegInfinity) (clock k))
     \<and> evalInfiniteLoop
           (setInterruptHandler (shouldInterruptAfterDeadline (DeadlineNumber NegInfinity)) rt)
           clock 0
         = Some (EvalFailure Interrupted)"
proof -
  have loop: "evalInfiniteLoop (setInterruptHandler h rt) clock 0
      = Some (EvalFailure Interrupted)" if "h (clock 0)" for h
    using that by (simp add: evalInfiniteLoop_first_poll setInterruptHandler_def)
  have date: "shouldInterruptAfterDeadline (DeadlineDate (ValidDate t)) (clock k)"
    if "t < c0" for k
  proof -
    have "c0 \<le> clock k" using assms by simp
    with that have "t < clock k" by simp
    then show ?thesis by (simp add: handler_unfold)
  qed
  have num: "shouldInterruptAfterDeadline (DeadlineNumber (Finite q)) (clock k)"
    if "q < of_int c0" for k
  proof -
    have "c0 \<le> clock k" using assms by simp
    then have "(of_int c0 :: rat) \<le> of_int (clock k)" by simp
    with that have "q < of_int (clock k)" by simp
    then show ?thesis by (simp add: handler_unfold)
  qed
  have neg: "shouldInterruptAfterDeadline (DeadlineNumber NegInfinity) (clock k)" for k
    by (simp add: handler_unfold)
  show ?thesis
    using date num neg loop by blast
qed

theorem past_deadline_interrupts_infinite_loop_witness:
  "(\<forall>k. (2000::int) \<le> 2000 + int k)
   \<and> (1000::int) < 2000
   \<and> (1500::rat) < of_int 2000
   \<and> (\<forall>k. shouldInterruptAfterDeadline (DeadlineDate (ValidDate 1000)) (2000 + int k))
   \<and> evalInfiniteLoop
         (setInterruptHandler (shouldInterruptAfterDeadline (DeadlineDate (ValidDate 1000)))
            \<lparr>interruptHandler = None\<rparr>)
         (\<lambda>k. 2000 + int k) 0
       = Some (EvalFailure Interrupted)
   \<and> (\<forall>k. shouldInterruptAfterDeadline (DeadlineNumber (Finite 1500)) (2000 + int k))
   \<and> evalInfiniteLoop
         (setInterruptHandler (shouldInterruptAfterDeadline (DeadlineNumber (Finite 1500)))
            \<lparr>interruptHandler = None\<rparr>)
         (\<lambda>k. 2000 + int k) 0
       = Some (EvalFailure Interrupted)"
proof -
  have a: "\<forall>k. (2000::int) \<le> 2000 + int k"
    by simp
  have b: "(1000::int) < 2000" "(1500::rat) < of_int 2000"
    by simp_all
  from past_deadline_interrupts_infinite_loop
    [OF a, of 1000 "\<lparr>interruptHandler = None\<rparr>" 1500] a b
  show ?thesis by blast
qed

text \<open>
  C8. The comparison is strict: a handler built from a deadline, whether a \<open>Date\<close> with
  time value \<open>t\<close> or the number \<open>t\<close>, answers false at the poll whose clock reading is
  \<open>t\<close> itself.
\<close>

theorem poll_at_deadline_does_not_interrupt:
  "shouldInterruptAfterDeadline (DeadlineDate (ValidDate t)) t = False
   \<and> shouldInterruptAfterDeadline (DeadlineNumber (Finite (of_int t))) t = False"
  by (simp add: handler_unfold)

theorem poll_at_deadline_does_not_interrupt_witness:
  "shouldInterruptAfterDeadline (DeadlineDate (ValidDate 1500)) 1500 = False
   \<and> shouldInterruptAfterDeadline (DeadlineNumber (Finite 1500)) 1500 = False
   \<and> shouldInterruptAfterDeadline (DeadlineDate (ValidDate 1500)) 1501 = True
   \<and> shouldInterruptAfterDeadline (DeadlineNumber (Finite 1500)) 1501 = True"
  using poll_at_deadline_does_not_interrupt [of 1500]
  by (simp add: handler_unfold)

text \<open>
  C9. A \<open>Date\<close> and the number its \<open>getTime()\<close> returns build the same handler: the two
  answer alike at every poll.
\<close>

theorem handler_from_Date_equals_handler_from_getTime:
  "shouldInterruptAfterDeadline (DeadlineDate d)
   = shouldInterruptAfterDeadline (DeadlineNumber (getTime d))"
  by (simp add: shouldInterruptAfterDeadline_def deadlineAsNumber_def)

section \<open>The shared module instance: proofs\<close>

subsection \<open>Effects of the promise operations\<close>

lemma promise_at_fresh [simp]: "promise_at s (length (promises s)) = None"
  by (simp add: promise_at_def)

lemma new_promise_fst [simp]: "fst (new_promise s) = length (promises s)"
  by (simp add: new_promise_def)

lemma new_promise_fields [simp]:
  "singleton (snd (new_promise s)) = singleton s"
  "singletonPromise (snd (new_promise s)) = singletonPromise s"
  "microtasks (snd (new_promise s)) = microtasks s"
  "constructions (snd (new_promise s)) = constructions s"
  "next_object (snd (new_promise s)) = next_object s"
  "next_instance (snd (new_promise s)) = next_instance s"
  "length (promises (snd (new_promise s))) = Suc (length (promises s))"
  by (simp_all add: new_promise_def)

lemma promise_at_new_promise [simp]:
  "promise_at (snd (new_promise s)) q =
     (if q = length (promises s) then Some (Pending []) else promise_at s q)"
  by (auto simp: new_promise_def promise_at_def nth_append)

lemma settle_promise_fields [simp]:
  "singleton (settle_promise p v s) = singleton s"
  "singletonPromise (settle_promise p v s) = singletonPromise s"
  "constructions (settle_promise p v s) = constructions s"
  "next_object (settle_promise p v s) = next_object s"
  "next_instance (settle_promise p v s) = next_instance s"
  "length (promises (settle_promise p v s)) = length (promises s)"
  by (simp_all add: settle_promise_def split: option.splits promise_state.splits)

lemma promise_at_settle_promise:
  "promise_at (settle_promise p v s) q =
     (if q = p \<and> is_pending s p then Some (Settled v) else promise_at s q)"
  by (auto simp: settle_promise_def promise_at_def is_pending_def
      split: option.splits promise_state.splits)

lemma microtasks_settle_promise:
  "microtasks (settle_promise p v s) =
     microtasks s @
       (case promise_at s p of Some (Pending rs) \<Rightarrow> map (\<lambda>r. Job r v) rs | _ \<Rightarrow> [])"
  by (simp add: settle_promise_def split: option.splits promise_state.splits)

lemma perform_then_fields [simp]:
  "singleton (perform_then p r s) = singleton s"
  "singletonPromise (perform_then p r s) = singletonPromise s"
  "constructions (perform_then p r s) = constructions s"
  "next_object (perform_then p r s) = next_object s"
  "next_instance (perform_then p r s) = next_instance s"
  "length (promises (perform_then p r s)) = length (promises s)"
  by (simp_all add: perform_then_def split: option.splits promise_state.splits)

lemma promise_at_perform_then:
  "promise_at (perform_then p r s) q =
     (case promise_at s p of
        Some (Pending rs) \<Rightarrow> if q = p then Some (Pending (rs @ [r])) else promise_at s q
      | _ \<Rightarrow> promise_at s q)"
  by (auto simp: perform_then_def promise_at_def split: option.splits promise_state.splits)

lemma microtasks_perform_then:
  "microtasks (perform_then p r s) =
     microtasks s @ (case promise_at s p of Some (Settled v) \<Rightarrow> [Job r v] | _ \<Rightarrow> [])"
  by (simp add: perform_then_def split: option.splits promise_state.splits)

lemma promise_at_record_update [simp]:
  "promise_at (s\<lparr>singleton := a\<rparr>) = promise_at s"
  "promise_at (s\<lparr>singletonPromise := b\<rparr>) = promise_at s"
  "promise_at (s\<lparr>microtasks := c\<rparr>) = promise_at s"
  "promise_at (s\<lparr>constructions := d\<rparr>) = promise_at s"
  "promise_at (s\<lparr>next_object := e\<rparr>) = promise_at s"
  "promise_at (s\<lparr>next_instance := f\<rparr>) = promise_at s"
  by (simp_all add: promise_at_def fun_eq_iff)

lemma is_pending_record_update [simp]:
  "is_pending (s\<lparr>singleton := a\<rparr>) = is_pending s"
  "is_pending (s\<lparr>microtasks := c\<rparr>) = is_pending s"
  by (simp_all add: is_pending_def fun_eq_iff)

text \<open>The first call and the later calls of getQuickJS, in terms of these effects.\<close>

lemma getQuickJS_later:
  "singletonPromise s = Some d \<Longrightarrow>
   getQuickJS s =
     (length (promises s),
      perform_then d (AwaitReturn (length (promises s))) (snd (new_promise s)))"
  by (simp add: getQuickJS_def new_promise_def split: prod.splits)

lemma getQuickJS_first:
  "singletonPromise s = None \<Longrightarrow> getQuickJS s = (length (promises s), first_call s)"
  by (simp add: getQuickJS_def new_promise_def perform_then_def promise_at_def first_call_def
      nth_append list_update_append split: prod.splits)

subsection \<open>The invariant: rules\<close>

lemma coherent_init: "coherent init"
  by (simp add: coherent_def init_def)

lemma coherentD:
  assumes "coherent s" "constructions s \<noteq> []"
  obtains c d where "constructions s = [c]" "singletonPromise s = Some d" "linked s c d"
  using assms by (auto simp: coherent_def split: list.splits option.splits)

lemma coherentD0:
  assumes "coherent s" "constructions s = []"
  shows "promises s = []" "microtasks s = []" "singletonPromise s = None" "singleton s = None"
  using assms by (auto simp: coherent_def)

lemma promise_at_3:
  "promises s = [a, b, c] \<Longrightarrow>
   promise_at s q = (if q = 0 then Some a else if q = 1 then Some b else if q = 2 then Some c else None)"
  by (auto simp: promise_at_def nth_Cons split: nat.splits)

lemma coherent_first_call:
  assumes "coherent s" "constructions s = []"
  shows "coherent (first_call s)"
proof -
  note z = coherentD0[OF assms]
  have p: "promises (first_call s) = [Pending [], Pending [ThenStore 2], Pending [AwaitReturn 0]]"
    by (simp add: first_call_def z)
  have f: "constructions (first_call s) = [1]" "singletonPromise (first_call s) = Some 2"
    "microtasks (first_call s) = []" "singleton (first_call s) = None"
    by (simp_all add: first_call_def z assms(2))
  have "linked (first_call s) 1 2"
    unfolding linked_def by (simp add: promise_at_3[OF p] f)
  then show ?thesis by (simp add: coherent_def f)
qed

lemma linkedI:
  assumes "c \<noteq> d" "promise_at s c \<noteq> None" "promise_at s d \<noteq> None"
    and "singleton s =
       (case promise_at s d of Some (Settled (Fulfilled m)) \<Rightarrow> Some m | _ \<Rightarrow> None)"
    and "\<And>rs. promise_at s c = Some (Pending rs) \<Longrightarrow> set rs \<subseteq> {ThenStore d}"
    and "\<And>rs r. promise_at s d = Some (Pending rs) \<Longrightarrow> r \<in> set rs \<Longrightarrow>
         \<exists>q. r = AwaitReturn q \<and> promise_at s q \<noteq> None \<and> q \<noteq> c \<and> q \<noteq> d"
    and "\<And>q rs. q \<noteq> c \<Longrightarrow> q \<noteq> d \<Longrightarrow> promise_at s q = Some (Pending rs) \<Longrightarrow> rs = []"
    and "\<And>q v. promise_at s q = Some (Settled v) \<Longrightarrow> promise_at s c = Some (Settled v)"
    and "\<And>q v. q \<noteq> c \<Longrightarrow> promise_at s q = Some (Settled v) \<Longrightarrow>
         promise_at s d = Some (Settled v)"
    and "\<And>r v. Job r v \<in> set (microtasks s) \<Longrightarrow> promise_at s c = Some (Settled v)"
    and "\<And>t v. Job (ThenStore t) v \<in> set (microtasks s) \<Longrightarrow> t = d"
    and "\<And>t v. Job (AwaitReturn t) v \<in> set (microtasks s) \<Longrightarrow>
         promise_at s t \<noteq> None \<and> t \<noteq> c \<and> t \<noteq> d \<and> promise_at s d = Some (Settled v)"
  shows "linked s c d"
  unfolding linked_def using assms by simp

lemma linked_neq: "linked s c d \<Longrightarrow> c \<noteq> d"
  and linked_c: "linked s c d \<Longrightarrow> promise_at s c \<noteq> None"
  and linked_d: "linked s c d \<Longrightarrow> promise_at s d \<noteq> None"
  and linked_singleton: "linked s c d \<Longrightarrow> singleton s =
       (case promise_at s d of Some (Settled (Fulfilled m)) \<Rightarrow> Some m | _ \<Rightarrow> None)"
  and linked_c_reactions: "linked s c d \<Longrightarrow> promise_at s c = Some (Pending rs) \<Longrightarrow>
       set rs \<subseteq> {ThenStore d}"
  and linked_d_reactions: "linked s c d \<Longrightarrow> promise_at s d = Some (Pending rs) \<Longrightarrow> r \<in> set rs \<Longrightarrow>
       \<exists>q. r = AwaitReturn q \<and> promise_at s q \<noteq> None \<and> q \<noteq> c \<and> q \<noteq> d"
  and linked_other_reactions: "linked s c d \<Longrightarrow> q \<noteq> c \<Longrightarrow> q \<noteq> d \<Longrightarrow>
       promise_at s q = Some (Pending rs) \<Longrightarrow> rs = []"
  and linked_settled_c: "linked s c d \<Longrightarrow> promise_at s q = Some (Settled v) \<Longrightarrow>
       promise_at s c = Some (Settled v)"
  and linked_settled_d: "linked s c d \<Longrightarrow> q \<noteq> c \<Longrightarrow> promise_at s q = Some (Settled v) \<Longrightarrow>
       promise_at s d = Some (Settled v)"
  by (simp_all add: linked_def)

lemma linked_job_c: "linked s c d \<Longrightarrow> Job r v \<in> set (microtasks s) \<Longrightarrow>
       promise_at s c = Some (Settled v)"
  by (simp add: linked_def)

lemma linked_job_then: "linked s c d \<Longrightarrow> Job (ThenStore t) v \<in> set (microtasks s) \<Longrightarrow> t = d"
  unfolding linked_def by blast

lemma linked_job_await: "linked s c d \<Longrightarrow> Job (AwaitReturn t) v \<in> set (microtasks s) \<Longrightarrow>
       promise_at s t \<noteq> None \<and> t \<noteq> c \<and> t \<noteq> d \<and> promise_at s d = Some (Settled v)"
  by (simp add: linked_def)

subsection \<open>The invariant under each operation\<close>

lemma linked_cong:
  "promises s' = promises s \<Longrightarrow> singleton s' = singleton s \<Longrightarrow>
   microtasks s' = microtasks s \<Longrightarrow> linked s' c d = linked s c d"
proof -
  assume a: "promises s' = promises s" "singleton s' = singleton s"
    "microtasks s' = microtasks s"
  have "promise_at s' = promise_at s"
    by (simp add: promise_at_def fun_eq_iff a)
  then show ?thesis
    by (simp add: linked_def a)
qed

lemma linked_later_call:
  assumes w: "linked s c d"
  defines "n \<equiv> length (promises s)"
  defines "s' \<equiv> perform_then d (AwaitReturn n) (snd (new_promise s))"
  shows "linked s' c d"
proof -
  obtain x where x: "promise_at s d = Some x" using linked_d[OF w] by auto
  obtain y where y: "promise_at s c = Some y" using linked_c[OF w] by auto
  have dn: "d \<noteq> n" "c \<noteq> n"
    using x y by (auto simp: promise_at_def n_def)
  have nn: "promise_at s n = None" by (simp add: n_def)
  show ?thesis
  proof (cases x)
    case (Pending rs)
    have P: "promise_at s' q =
        (if q = d then Some (Pending (rs @ [AwaitReturn n]))
         else if q = n then Some (Pending []) else promise_at s q)" for q
      using x Pending dn by (simp add: s'_def promise_at_perform_then n_def)
    have M: "microtasks s' = microtasks s"
      using x Pending dn by (simp add: s'_def microtasks_perform_then n_def)
    have S: "singleton s' = singleton s" by (simp add: s'_def)
    show ?thesis
    proof (rule linkedI)
      show "c \<noteq> d" by (rule linked_neq[OF w])
      show "promise_at s' c \<noteq> None" using y dn linked_neq[OF w] by (simp add: P)
      show "promise_at s' d \<noteq> None" by (simp add: P)
      show "singleton s' =
        (case promise_at s' d of Some (Settled (Fulfilled m)) \<Rightarrow> Some m | _ \<Rightarrow> None)"
        using linked_singleton[OF w] x Pending by (simp add: P S)
      show "set rs' \<subseteq> {ThenStore d}" if "promise_at s' c = Some (Pending rs')" for rs'
        using that linked_c_reactions[OF w, of rs'] dn linked_neq[OF w] by (simp add: P)
      show "\<exists>q. r = AwaitReturn q \<and> promise_at s' q \<noteq> None \<and> q \<noteq> c \<and> q \<noteq> d"
        if "promise_at s' d = Some (Pending rs')" "r \<in> set rs'" for rs' r
      proof -
        from that have "r \<in> set rs \<or> r = AwaitReturn n" by (auto simp: P)
        then show ?thesis
        proof
          assume "r \<in> set rs"
          from linked_d_reactions[OF w _ this] x Pending
          obtain q where "r = AwaitReturn q" "promise_at s q \<noteq> None" "q \<noteq> c" "q \<noteq> d"
            by auto
          then show ?thesis by (auto simp: P)
        next
          assume "r = AwaitReturn n"
          then show ?thesis using dn by (auto simp: P)
        qed
      qed
      show "rs' = []" if "q \<noteq> c" "q \<noteq> d" "promise_at s' q = Some (Pending rs')" for q rs'
        using that linked_other_reactions[OF w, of q rs'] by (auto simp: P split: if_splits)
      show "promise_at s' c = Some (Settled v)" if "promise_at s' q = Some (Settled v)" for q v
        using that linked_settled_c[OF w, of q v] dn linked_neq[OF w] by (auto simp: P split: if_splits)
      show "promise_at s' d = Some (Settled v)"
        if "q \<noteq> c" "promise_at s' q = Some (Settled v)" for q v
        using that linked_settled_d[OF w, of q v] x Pending by (auto simp: P split: if_splits)
      show "promise_at s' c = Some (Settled v)" if "Job r v \<in> set (microtasks s')" for r v
        using that linked_job_c[OF w, of r v] dn linked_neq[OF w] by (simp add: P M)
      show "t = d" if "Job (ThenStore t) v \<in> set (microtasks s')" for t v
        using that linked_job_then[OF w, of t v] by (simp add: M)
      show "promise_at s' t \<noteq> None \<and> t \<noteq> c \<and> t \<noteq> d \<and> promise_at s' d = Some (Settled v)"
        if "Job (AwaitReturn t) v \<in> set (microtasks s')" for t v
        using that linked_job_await[OF w, of t v] x Pending by (simp add: M)
    qed
  next
    case (Settled u)
    have P: "promise_at s' q = (if q = n then Some (Pending []) else promise_at s q)" for q
      using x Settled dn by (simp add: s'_def promise_at_perform_then n_def)
    have M: "microtasks s' = microtasks s @ [Job (AwaitReturn n) u]"
      using x Settled dn by (simp add: s'_def microtasks_perform_then n_def)
    have S: "singleton s' = singleton s" by (simp add: s'_def)
    have cu: "promise_at s c = Some (Settled u)"
      using linked_settled_c[OF w, of d u] x Settled by simp
    show ?thesis
    proof (rule linkedI)
      show "c \<noteq> d" by (rule linked_neq[OF w])
      show "promise_at s' c \<noteq> None" using y dn by (simp add: P)
      show "promise_at s' d \<noteq> None" using x dn by (simp add: P)
      show "singleton s' =
        (case promise_at s' d of Some (Settled (Fulfilled m)) \<Rightarrow> Some m | _ \<Rightarrow> None)"
        using linked_singleton[OF w] dn by (simp add: P S)
      show "set rs' \<subseteq> {ThenStore d}" if "promise_at s' c = Some (Pending rs')" for rs'
        using that linked_c_reactions[OF w, of rs'] dn by (simp add: P)
      show "\<exists>q. r = AwaitReturn q \<and> promise_at s' q \<noteq> None \<and> q \<noteq> c \<and> q \<noteq> d"
        if "promise_at s' d = Some (Pending rs')" "r \<in> set rs'" for rs' r
        using that x Settled dn by (simp add: P)
      show "rs' = []" if "q \<noteq> c" "q \<noteq> d" "promise_at s' q = Some (Pending rs')" for q rs'
        using that linked_other_reactions[OF w, of q rs'] by (auto simp: P split: if_splits)
      show "promise_at s' c = Some (Settled v)" if "promise_at s' q = Some (Settled v)" for q v
        using that linked_settled_c[OF w, of q v] dn by (auto simp: P split: if_splits)
      show "promise_at s' d = Some (Settled v)"
        if "q \<noteq> c" "promise_at s' q = Some (Settled v)" for q v
        using that linked_settled_d[OF w, of q v] dn by (auto simp: P split: if_splits)
      show "promise_at s' c = Some (Settled v)" if "Job r v \<in> set (microtasks s')" for r v
        using that linked_job_c[OF w, of r v] dn cu by (auto simp: P M)
      show "t = d" if "Job (ThenStore t) v \<in> set (microtasks s')" for t v
        using that linked_job_then[OF w, of t v] by (simp add: M)
      show "promise_at s' t \<noteq> None \<and> t \<noteq> c \<and> t \<noteq> d \<and> promise_at s' d = Some (Settled v)"
        if "Job (AwaitReturn t) v \<in> set (microtasks s')" for t v
        using that linked_job_await[OF w, of t v] x Settled dn nn by (auto simp: P M)
    qed
  qed
qed

lemma linked_settle_c:
  fixes v :: outcome
  assumes w: "linked s c d" and pc: "promise_at s c = Some (Pending rs)"
  defines "s' \<equiv> settle_promise c v s"
  shows "linked s' c d"
proof -
  have P: "promise_at s' q = (if q = c then Some (Settled v) else promise_at s q)" for q
    using pc by (simp add: s'_def promise_at_settle_promise is_pending_def)
  have M: "microtasks s' = microtasks s @ map (\<lambda>r. Job r v) rs"
    using pc by (simp add: s'_def microtasks_settle_promise)
  have S: "singleton s' = singleton s" by (simp add: s'_def)
  have none_settled: "promise_at s q \<noteq> Some (Settled u)" for q u
    using linked_settled_c[OF w, of q u] pc by auto
  have no_jobs: "Job r u \<notin> set (microtasks s)" for r u
    using linked_job_c[OF w, of r u] pc by auto
  have rs: "r \<in> set rs \<Longrightarrow> r = ThenStore d" for r
    using linked_c_reactions[OF w pc] by auto
  note n = linked_neq[OF w]
  show ?thesis
  proof (rule linkedI)
    show "c \<noteq> d" by (rule n)
    show "promise_at s' c \<noteq> None" by (simp add: P)
    show "promise_at s' d \<noteq> None" using linked_d[OF w] n by (simp add: P)
    show "singleton s' =
        (case promise_at s' d of Some (Settled (Fulfilled m)) \<Rightarrow> Some m | _ \<Rightarrow> None)"
      using linked_singleton[OF w] n by (simp add: P S)
    show "set rs' \<subseteq> {ThenStore d}" if "promise_at s' c = Some (Pending rs')" for rs'
      using that by (simp add: P)
    show "\<exists>q. r = AwaitReturn q \<and> promise_at s' q \<noteq> None \<and> q \<noteq> c \<and> q \<noteq> d"
      if "promise_at s' d = Some (Pending rs')" "r \<in> set rs'" for rs' r
    proof -
      from that n have "promise_at s d = Some (Pending rs')" by (simp add: P)
      from linked_d_reactions[OF w this that(2)] show ?thesis by (auto simp: P)
    qed
    show "rs' = []" if "q \<noteq> c" "q \<noteq> d" "promise_at s' q = Some (Pending rs')" for q rs'
      using that linked_other_reactions[OF w, of q rs'] by (simp add: P)
    show "promise_at s' c = Some (Settled u)" if "promise_at s' q = Some (Settled u)" for q u
      using that none_settled[of q u] by (auto simp: P split: if_splits)
    show "promise_at s' d = Some (Settled u)"
      if "q \<noteq> c" "promise_at s' q = Some (Settled u)" for q u
      using that none_settled[of q u] by (simp add: P)
    show "promise_at s' c = Some (Settled u)" if "Job r u \<in> set (microtasks s')" for r u
      using that no_jobs[of r u] by (auto simp: P M)
    show "t = d" if "Job (ThenStore t) u \<in> set (microtasks s')" for t u
      using that no_jobs[of "ThenStore t" u] rs by (auto simp: M)
    show "promise_at s' t \<noteq> None \<and> t \<noteq> c \<and> t \<noteq> d \<and> promise_at s' d = Some (Settled u)"
      if "Job (AwaitReturn t) u \<in> set (microtasks s')" for t u
      using that no_jobs[of "AwaitReturn t" u] rs by (auto simp: M)
  qed
qed

lemma linked_settle_d:
  assumes w: "linked s c d" and pc: "promise_at s c = Some (Settled v)"
    and js: "set js \<subseteq> set (microtasks s)"
    and sg: "sg = (case v of Fulfilled m \<Rightarrow> Some m | Rejected e \<Rightarrow> singleton s)"
  defines "s' \<equiv> settle_promise d v (s\<lparr>microtasks := js, singleton := sg\<rparr>)"
  shows "linked s' c d"
proof -
  note n = linked_neq[OF w]
  obtain x where x: "promise_at s d = Some x" using linked_d[OF w] by auto
  have same: "u = v" if "promise_at s q = Some (Settled u)" for q u
    using linked_settled_c[OF w that] pc by simp
  have P: "promise_at s' q = (if q = d then Some (Settled v) else promise_at s q)" for q
    using x same[of d] by (cases x) (auto simp: s'_def promise_at_settle_promise is_pending_def)
  have S: "singleton s' = sg" by (simp add: s'_def)
  have M: "microtasks s' =
      js @ (case x of Pending rs \<Rightarrow> map (\<lambda>r. Job r v) rs | _ \<Rightarrow> [])"
    using x by (simp add: s'_def microtasks_settle_promise split: promise_state.splits)
  have old: "Job r u \<in> set (microtasks s)" if "Job r u \<in> set js" for r u
    using that js by auto
  have sg': "sg = (case v of Fulfilled m \<Rightarrow> Some m | Rejected e \<Rightarrow> None)"
  proof (cases v)
    case (Fulfilled m)
    then show ?thesis by (simp add: sg)
  next
    case (Rejected e)
    have "singleton s = None"
      using linked_singleton[OF w] x same[of d] Rejected
      by (auto split: promise_state.splits outcome.splits)
    then show ?thesis using Rejected by (simp add: sg)
  qed
  show ?thesis
  proof (rule linkedI)
    show "c \<noteq> d" by (rule n)
    show "promise_at s' c \<noteq> None" using pc n by (simp add: P)
    show "promise_at s' d \<noteq> None" by (simp add: P)
    show "singleton s' =
        (case promise_at s' d of Some (Settled (Fulfilled m)) \<Rightarrow> Some m | _ \<Rightarrow> None)"
      by (simp add: P S sg' split: outcome.splits)
    show "set rs' \<subseteq> {ThenStore d}" if "promise_at s' c = Some (Pending rs')" for rs'
      using that pc n by (simp add: P)
    show "\<exists>q. r = AwaitReturn q \<and> promise_at s' q \<noteq> None \<and> q \<noteq> c \<and> q \<noteq> d"
      if "promise_at s' d = Some (Pending rs')" "r \<in> set rs'" for rs' r
      using that by (simp add: P)
    show "rs' = []" if "q \<noteq> c" "q \<noteq> d" "promise_at s' q = Some (Pending rs')" for q rs'
      using that linked_other_reactions[OF w, of q rs'] by (simp add: P)
    show "promise_at s' c = Some (Settled u)" if "promise_at s' q = Some (Settled u)" for q u
      using that same[of q u] pc n by (auto simp: P split: if_splits)
    show "promise_at s' d = Some (Settled u)"
      if "q \<noteq> c" "promise_at s' q = Some (Settled u)" for q u
      using that same[of q u] by (auto simp: P split: if_splits)
    show "promise_at s' c = Some (Settled u)" if "Job r u \<in> set (microtasks s')" for r u
      using that linked_job_c[OF w old, of r u] pc n
      by (auto simp: P M split: promise_state.splits)
    show "t = d" if "Job (ThenStore t) u \<in> set (microtasks s')" for t u
    proof (cases "Job (ThenStore t) u \<in> set js")
      case True
      then show ?thesis using linked_job_then[OF w old] by blast
    next
      case False
      with that obtain rs where "x = Pending rs" "ThenStore t \<in> set rs"
        by (auto simp: M split: promise_state.splits)
      with linked_d_reactions[OF w, of rs "ThenStore t"] x show ?thesis by auto
    qed
    show "promise_at s' t \<noteq> None \<and> t \<noteq> c \<and> t \<noteq> d \<and> promise_at s' d = Some (Settled u)"
      if "Job (AwaitReturn t) u \<in> set (microtasks s')" for t u
    proof (cases "Job (AwaitReturn t) u \<in> set js")
      case True
      from linked_job_await[OF w old[OF True]] same[of d u]
      show ?thesis by (auto simp: P)
    next
      case False
      with that obtain rs where r: "x = Pending rs" "AwaitReturn t \<in> set rs" "u = v"
        by (auto simp: M split: promise_state.splits)
      with linked_d_reactions[OF w, of rs "AwaitReturn t"] x show ?thesis by (auto simp: P)
    qed
  qed
qed

lemma linked_settle_other:
  assumes w: "linked s c d" and j: "Job (AwaitReturn t) v \<in> set (microtasks s)"
    and js: "set js \<subseteq> set (microtasks s)"
  defines "s' \<equiv> settle_promise t v (s\<lparr>microtasks := js\<rparr>)"
  shows "linked s' c d"
proof -
  note n = linked_neq[OF w]
  from linked_job_await[OF w j] obtain x where x: "promise_at s t = Some x"
    and t: "t \<noteq> c" "t \<noteq> d" and pd: "promise_at s d = Some (Settled v)"
    by auto
  have pc: "promise_at s c = Some (Settled v)" by (rule linked_job_c[OF w j])
  have same: "u = v" if "promise_at s q = Some (Settled u)" for q u
    using linked_settled_c[OF w that] pc by simp
  have P: "promise_at s' q = (if q = t then Some (Settled v) else promise_at s q)" for q
    using x same[of t] by (cases x) (auto simp: s'_def promise_at_settle_promise is_pending_def)
  have S: "singleton s' = singleton s" by (simp add: s'_def)
  have M: "microtasks s' = js"
    using x linked_other_reactions[OF w t]
    by (auto simp: s'_def microtasks_settle_promise split: promise_state.splits)
  have old: "Job r u \<in> set (microtasks s)" if "Job r u \<in> set js" for r u
    using that js by auto
  show ?thesis
  proof (rule linkedI)
    show "c \<noteq> d" by (rule n)
    show "promise_at s' c \<noteq> None" using pc t by (simp add: P)
    show "promise_at s' d \<noteq> None" using pd t by (simp add: P)
    show "singleton s' =
        (case promise_at s' d of Some (Settled (Fulfilled m)) \<Rightarrow> Some m | _ \<Rightarrow> None)"
      using linked_singleton[OF w] t by (simp add: P S)
    show "set rs' \<subseteq> {ThenStore d}" if "promise_at s' c = Some (Pending rs')" for rs'
      using that pc t by (simp add: P)
    show "\<exists>q. r = AwaitReturn q \<and> promise_at s' q \<noteq> None \<and> q \<noteq> c \<and> q \<noteq> d"
      if "promise_at s' d = Some (Pending rs')" "r \<in> set rs'" for rs' r
      using that pd t by (simp add: P)
    show "rs' = []" if "q \<noteq> c" "q \<noteq> d" "promise_at s' q = Some (Pending rs')" for q rs'
      using that linked_other_reactions[OF w, of q rs'] by (auto simp: P split: if_splits)
    show "promise_at s' c = Some (Settled u)" if "promise_at s' q = Some (Settled u)" for q u
      using that same[of q u] pc t by (auto simp: P split: if_splits)
    show "promise_at s' d = Some (Settled u)"
      if "q \<noteq> c" "promise_at s' q = Some (Settled u)" for q u
      using that same[of q u] pd t by (auto simp: P split: if_splits)
    show "promise_at s' c = Some (Settled u)" if "Job r u \<in> set (microtasks s')" for r u
      using that linked_job_c[OF w old, of r u] t by (simp add: P M)
    show "t' = d" if "Job (ThenStore t') u \<in> set (microtasks s')" for t' u
      using that linked_job_then[OF w old, of t' u] by (simp add: M)
    show "promise_at s' t' \<noteq> None \<and> t' \<noteq> c \<and> t' \<noteq> d \<and> promise_at s' d = Some (Settled u)"
      if "Job (AwaitReturn t') u \<in> set (microtasks s')" for t' u
      using that linked_job_await[OF w old, of t' u] t by (auto simp: P M)
  qed
qed

subsection \<open>The factories touch only the two counters\<close>

lemma factory_fields [simp]:
  "promises (snd (newQuickJSWASMModule l s)) = promises s"
  "singleton (snd (newQuickJSWASMModule l s)) = singleton s"
  "singletonPromise (snd (newQuickJSWASMModule l s)) = singletonPromise s"
  "microtasks (snd (newQuickJSWASMModule l s)) = microtasks s"
  "constructions (snd (newQuickJSWASMModule l s)) = constructions s"
  by (simp_all add: newQuickJSWASMModule_def wasmModuleLoader_def Let_def
      split: option.splits)

lemma async_factory_fields [simp]:
  "promises (snd (newQuickJSAsyncWASMModule l s)) = promises s"
  "singleton (snd (newQuickJSAsyncWASMModule l s)) = singleton s"
  "singletonPromise (snd (newQuickJSAsyncWASMModule l s)) = singletonPromise s"
  "microtasks (snd (newQuickJSAsyncWASMModule l s)) = microtasks s"
  "constructions (snd (newQuickJSAsyncWASMModule l s)) = constructions s"
  by (simp_all add: newQuickJSAsyncWASMModule_def wasmModuleLoader_def Let_def
      split: option.splits)

lemma newAsyncRuntime_snd [simp]:
  "snd (newAsyncRuntime options l s) = snd (newQuickJSAsyncWASMModule l s)"
  by (simp add: newAsyncRuntime_def split: prod.splits sum.splits)

lemma newAsyncContext_snd [simp]:
  "snd (newAsyncContext options l s) = snd (newQuickJSAsyncWASMModule l s)"
  by (simp add: newAsyncContext_def split: prod.splits sum.splits)

lemma promise_at_cong:
  "promises s' = promises s \<Longrightarrow> promise_at s' = promise_at s"
  by (simp add: promise_at_def fun_eq_iff)

lemma coherent_cong:
  assumes "promises s' = promises s" "singleton s' = singleton s"
    "microtasks s' = microtasks s" "constructions s' = constructions s"
    "singletonPromise s' = singletonPromise s"
  shows "coherent s' = coherent s"
proof -
  have "linked s' c d = linked s c d" for c d
    by (rule linked_cong[OF assms(1-3)])
  then show ?thesis
    by (simp add: coherent_def assms split: list.splits option.splits)
qed

subsection \<open>Every step keeps the invariant\<close>

lemma coherent_getQuickJS:
  assumes "coherent s"
  shows "coherent (snd (getQuickJS s))"
proof (cases "constructions s")
  case Nil
  with assms have "singletonPromise s = None" by (simp add: coherent_def)
  then show ?thesis
    using coherent_first_call[OF assms Nil] by (simp add: getQuickJS_first)
next
  case (Cons c cs)
  with assms obtain d where c: "constructions s = [c]" and d: "singletonPromise s = Some d"
    and w: "linked s c d"
    by (auto simp: coherent_def split: list.splits option.splits)
  show ?thesis
    using linked_later_call[OF w] c d by (simp add: getQuickJS_later coherent_def)
qed

lemma coherent_factory_completes:
  assumes "coherent s"
  shows "coherent (factory_completes p l s)"
proof (cases "p \<in> set (constructions s) \<and> is_pending s p")
  case False
  then show ?thesis using assms by (auto simp: factory_completes_def)
next
  case True
  with assms obtain d where c: "constructions s = [p]" and d: "singletonPromise s = Some d"
    and w: "linked s p d"
    by (auto simp: coherent_def split: list.splits option.splits)
  from True obtain rs where rs: "promise_at s p = Some (Pending rs)"
    by (auto simp: is_pending_def split: option.splits promise_state.splits)
  define s1 where "s1 = snd (newQuickJSWASMModule l s)"
  have w1: "linked s1 p d"
    using w linked_cong[of s1 s p d] by (simp add: s1_def)
  have rs1: "promise_at s1 p = Some (Pending rs)"
    using rs promise_at_cong[of s1 s] by (simp add: s1_def)
  have f: "constructions s1 = [p]" "singletonPromise s1 = Some d"
    using c d by (simp_all add: s1_def)
  have "coherent (settle_promise p v s1)" for v
    using linked_settle_c[OF w1 rs1, of v] f by (simp add: coherent_def)
  moreover obtain r where "newQuickJSWASMModule l s = (r, s1)"
    by (cases "newQuickJSWASMModule l s") (simp add: s1_def)
  ultimately show ?thesis
    using True by (cases r) (simp_all add: factory_completes_def)
qed

lemma coherent_run_microtask:
  assumes "coherent s"
  shows "coherent (run_microtask s)"
proof (cases "microtasks s")
  case Nil
  then show ?thesis using assms by (simp add: run_microtask_def)
next
  case (Cons j js)
  with assms obtain c d where c: "constructions s = [c]" and d: "singletonPromise s = Some d"
    and w: "linked s c d"
    by (auto simp: coherent_def split: list.splits option.splits)
  have js: "set js \<subseteq> set (microtasks s)" using Cons by auto
  have jin: "j \<in> set (microtasks s)" using Cons by simp
  obtain r v where j: "j = Job r v" by (cases j)
  have pc: "promise_at s c = Some (Settled v)"
    using linked_job_c[OF w] jin j by simp
  have "linked (run_job j (s\<lparr>microtasks := js\<rparr>)) c d"
  proof (cases r)
    case (ThenStore t)
    then have t: "t = d" using linked_job_then[OF w] jin j by simp
    show ?thesis
    proof (cases v)
      case (Fulfilled m)
      show ?thesis
        using linked_settle_d[OF w pc js, of "Some m"] Fulfilled
        by (simp add: j ThenStore t)
    next
      case (Rejected e)
      show ?thesis
        using linked_settle_d[OF w pc js, of "singleton s"] Rejected
        by (simp add: j ThenStore t)
    qed
  next
    case (AwaitReturn t)
    show ?thesis
      using linked_settle_other[OF w _ js, of t v] jin j AwaitReturn by simp
  qed
  moreover have "constructions (run_job j (s\<lparr>microtasks := js\<rparr>)) = [c]"
    "singletonPromise (run_job j (s\<lparr>microtasks := js\<rparr>)) = Some d"
    using c d by (cases r; cases v; simp add: j)+
  ultimately show ?thesis
    using Cons by (simp add: run_microtask_def coherent_def)
qed

lemma coherent_step: "coherent s \<Longrightarrow> coherent (step e s)"
  by (cases e)
    (simp_all add: coherent_getQuickJS coherent_factory_completes coherent_run_microtask
      coherent_cong[of "snd (newQuickJSWASMModule _ s)" s]
      coherent_cong[of "snd (newQuickJSAsyncWASMModule _ s)" s])

lemma run_append: "run (es @ es') s = run es' (run es s)"
  by (induction es arbitrary: s) simp_all

lemma coherent_run: "coherent s \<Longrightarrow> coherent (run es s)"
  by (induction es arbitrary: s) (simp_all add: coherent_step)

lemma coherent_reachable: "coherent (run es init)"
  by (simp add: coherent_run coherent_init)

subsection \<open>Every pending promise is waited for\<close>

lemma waited_forI:
  assumes "\<And>rs. promise_at s d = Some (Pending rs) \<Longrightarrow>
        (\<exists>rs'. promise_at s c = Some (Pending rs') \<and> ThenStore d \<in> set rs')
        \<or> (\<exists>v. Job (ThenStore d) v \<in> set (microtasks s))"
    and "\<And>q rs. q \<noteq> c \<Longrightarrow> q \<noteq> d \<Longrightarrow> promise_at s q = Some (Pending rs) \<Longrightarrow>
        (\<exists>rs'. promise_at s d = Some (Pending rs') \<and> AwaitReturn q \<in> set rs')
        \<or> (\<exists>v. Job (AwaitReturn q) v \<in> set (microtasks s))"
  shows "waited_for s c d"
  unfolding waited_for_def using assms by blast

lemma waited_for_d:
  "waited_for s c d \<Longrightarrow> promise_at s d = Some (Pending rs) \<Longrightarrow>
        (\<exists>rs'. promise_at s c = Some (Pending rs') \<and> ThenStore d \<in> set rs')
        \<or> (\<exists>v. Job (ThenStore d) v \<in> set (microtasks s))"
  unfolding waited_for_def by blast

lemma waited_for_other:
  "waited_for s c d \<Longrightarrow> q \<noteq> c \<Longrightarrow> q \<noteq> d \<Longrightarrow> promise_at s q = Some (Pending rs) \<Longrightarrow>
        (\<exists>rs'. promise_at s d = Some (Pending rs') \<and> AwaitReturn q \<in> set rs')
        \<or> (\<exists>v. Job (AwaitReturn q) v \<in> set (microtasks s))"
  unfolding waited_for_def by blast

lemma waited_for_cong:
  "promises s' = promises s \<Longrightarrow> microtasks s' = microtasks s \<Longrightarrow> waited_for s' c d = waited_for s c d"
  using promise_at_cong[of s' s] by (simp add: waited_for_def)

lemma waited_for_first_call:
  assumes "promises s = []"
  shows "waited_for (first_call s) 1 2"
proof -
  have p: "promises (first_call s) = [Pending [], Pending [ThenStore 2], Pending [AwaitReturn 0]]"
    by (simp add: first_call_def assms)
  show ?thesis
    unfolding waited_for_def by (simp add: promise_at_3[OF p])
qed

lemma waited_for_later_call:
  assumes w: "linked s c d" and l: "waited_for s c d"
  defines "n \<equiv> length (promises s)"
  defines "s' \<equiv> perform_then d (AwaitReturn n) (snd (new_promise s))"
  shows "waited_for s' c d"
proof -
  obtain x where x: "promise_at s d = Some x" using linked_d[OF w] by auto
  obtain y where y: "promise_at s c = Some y" using linked_c[OF w] by auto
  have dn: "d \<noteq> n" "c \<noteq> n"
    using x y by (auto simp: promise_at_def n_def)
  show ?thesis
  proof (cases x)
    case (Pending rs)
    have P: "promise_at s' q =
        (if q = d then Some (Pending (rs @ [AwaitReturn n]))
         else if q = n then Some (Pending []) else promise_at s q)" for q
      using x Pending dn by (simp add: s'_def promise_at_perform_then n_def)
    have M: "microtasks s' = microtasks s"
      using x Pending dn by (simp add: s'_def microtasks_perform_then n_def)
    show ?thesis
    proof (rule waited_forI)
      show "(\<exists>rs'. promise_at s' c = Some (Pending rs') \<and> ThenStore d \<in> set rs')
        \<or> (\<exists>v. Job (ThenStore d) v \<in> set (microtasks s'))"
        if "promise_at s' d = Some (Pending rs0)" for rs0
        using waited_for_d[OF l, of rs] x Pending dn linked_neq[OF w] by (simp add: P M)
      show "(\<exists>rs'. promise_at s' d = Some (Pending rs') \<and> AwaitReturn q \<in> set rs')
        \<or> (\<exists>v. Job (AwaitReturn q) v \<in> set (microtasks s'))"
        if "q \<noteq> c" "q \<noteq> d" "promise_at s' q = Some (Pending rs0)" for q rs0
      proof (cases "q = n")
        case True
        then show ?thesis by (simp add: P)
      next
        case False
        with that have "promise_at s q = Some (Pending rs0)" by (simp add: P)
        from waited_for_other[OF l that(1,2) this] x Pending show ?thesis
          by (auto simp: P M)
      qed
    qed
  next
    case (Settled u)
    have P: "promise_at s' q = (if q = n then Some (Pending []) else promise_at s q)" for q
      using x Settled dn by (simp add: s'_def promise_at_perform_then n_def)
    have M: "microtasks s' = microtasks s @ [Job (AwaitReturn n) u]"
      using x Settled dn by (simp add: s'_def microtasks_perform_then n_def)
    show ?thesis
    proof (rule waited_forI)
      show "(\<exists>rs'. promise_at s' c = Some (Pending rs') \<and> ThenStore d \<in> set rs')
        \<or> (\<exists>v. Job (ThenStore d) v \<in> set (microtasks s'))"
        if "promise_at s' d = Some (Pending rs0)" for rs0
        using that x Settled dn by (simp add: P)
      show "(\<exists>rs'. promise_at s' d = Some (Pending rs') \<and> AwaitReturn q \<in> set rs')
        \<or> (\<exists>v. Job (AwaitReturn q) v \<in> set (microtasks s'))"
        if "q \<noteq> c" "q \<noteq> d" "promise_at s' q = Some (Pending rs0)" for q rs0
      proof (cases "q = n")
        case True
        then show ?thesis by (auto simp: M)
      next
        case False
        with that have "promise_at s q = Some (Pending rs0)" by (simp add: P)
        from waited_for_other[OF l that(1,2) this] x Settled show ?thesis
          by (auto simp: M)
      qed
    qed
  qed
qed

lemma waited_for_settle_c:
  fixes v :: outcome
  assumes w: "linked s c d" and l: "waited_for s c d" and pc: "promise_at s c = Some (Pending rs)"
  defines "s' \<equiv> settle_promise c v s"
  shows "waited_for s' c d"
proof -
  have P: "promise_at s' q = (if q = c then Some (Settled v) else promise_at s q)" for q
    using pc by (simp add: s'_def promise_at_settle_promise is_pending_def)
  have M: "microtasks s' = microtasks s @ map (\<lambda>r. Job r v) rs"
    using pc by (simp add: s'_def microtasks_settle_promise)
  note n = linked_neq[OF w]
  show ?thesis
  proof (rule waited_forI)
    show "(\<exists>rs'. promise_at s' c = Some (Pending rs') \<and> ThenStore d \<in> set rs')
        \<or> (\<exists>v. Job (ThenStore d) v \<in> set (microtasks s'))"
      if "promise_at s' d = Some (Pending rs0)" for rs0
    proof -
      from that n have "promise_at s d = Some (Pending rs0)" by (simp add: P)
      from waited_for_d[OF l this] pc show ?thesis by (auto simp: M)
    qed
    show "(\<exists>rs'. promise_at s' d = Some (Pending rs') \<and> AwaitReturn q \<in> set rs')
        \<or> (\<exists>v. Job (AwaitReturn q) v \<in> set (microtasks s'))"
      if "q \<noteq> c" "q \<noteq> d" "promise_at s' q = Some (Pending rs0)" for q rs0
    proof -
      from that have "promise_at s q = Some (Pending rs0)" by (simp add: P)
      from waited_for_other[OF l that(1,2) this] n show ?thesis by (auto simp: P M)
    qed
  qed
qed

lemma waited_for_settle_d:
  fixes sg :: "QuickJSWASMModule option"
  assumes w: "linked s c d" and l: "waited_for s c d" and pc: "promise_at s c = Some (Settled v)"
    and m: "microtasks s = Job (ThenStore d) v # js"
  defines "s' \<equiv> settle_promise d v (s\<lparr>microtasks := js, singleton := sg\<rparr>)"
  shows "waited_for s' c d"
proof -
  note n = linked_neq[OF w]
  obtain x where x: "promise_at s d = Some x" using linked_d[OF w] by auto
  have same: "u = v" if "promise_at s q = Some (Settled u)" for q u
    using linked_settled_c[OF w that] pc by simp
  have P: "promise_at s' q = (if q = d then Some (Settled v) else promise_at s q)" for q
    using x same[of d] by (cases x) (auto simp: s'_def promise_at_settle_promise is_pending_def)
  have M: "microtasks s' =
      js @ (case x of Pending rs \<Rightarrow> map (\<lambda>r. Job r v) rs | _ \<Rightarrow> [])"
    using x by (simp add: s'_def microtasks_settle_promise split: promise_state.splits)
  show ?thesis
  proof (rule waited_forI)
    show "(\<exists>rs'. promise_at s' c = Some (Pending rs') \<and> ThenStore d \<in> set rs')
        \<or> (\<exists>v. Job (ThenStore d) v \<in> set (microtasks s'))"
      if "promise_at s' d = Some (Pending rs0)" for rs0
      using that by (simp add: P)
    show "(\<exists>rs'. promise_at s' d = Some (Pending rs') \<and> AwaitReturn q \<in> set rs')
        \<or> (\<exists>v. Job (AwaitReturn q) v \<in> set (microtasks s'))"
      if "q \<noteq> c" "q \<noteq> d" "promise_at s' q = Some (Pending rs0)" for q rs0
    proof -
      from that have "promise_at s q = Some (Pending rs0)" by (simp add: P)
      from waited_for_other[OF l that(1,2) this]
      have "\<exists>u. Job (AwaitReturn q) u \<in> set (microtasks s')"
      proof
        assume "\<exists>rs'. promise_at s d = Some (Pending rs') \<and> AwaitReturn q \<in> set rs'"
        then show ?thesis using x by (auto simp: M)
      next
        assume "\<exists>u. Job (AwaitReturn q) u \<in> set (microtasks s)"
        then show ?thesis by (auto simp: m M)
      qed
      then show ?thesis by blast
    qed
  qed
qed

lemma waited_for_settle_other:
  assumes w: "linked s c d" and l: "waited_for s c d"
    and m: "microtasks s = Job (AwaitReturn t) v # js"
  defines "s' \<equiv> settle_promise t v (s\<lparr>microtasks := js\<rparr>)"
  shows "waited_for s' c d"
proof -
  note n = linked_neq[OF w]
  have j: "Job (AwaitReturn t) v \<in> set (microtasks s)" by (simp add: m)
  from linked_job_await[OF w j] obtain x where x: "promise_at s t = Some x"
    and t: "t \<noteq> c" "t \<noteq> d" and pd: "promise_at s d = Some (Settled v)"
    by auto
  have pc: "promise_at s c = Some (Settled v)" by (rule linked_job_c[OF w j])
  have same: "u = v" if "promise_at s q = Some (Settled u)" for q u
    using linked_settled_c[OF w that] pc by simp
  have P: "promise_at s' q = (if q = t then Some (Settled v) else promise_at s q)" for q
    using x same[of t] by (cases x) (auto simp: s'_def promise_at_settle_promise is_pending_def)
  have M: "microtasks s' = js"
    using x linked_other_reactions[OF w t]
    by (auto simp: s'_def microtasks_settle_promise split: promise_state.splits)
  show ?thesis
  proof (rule waited_forI)
    show "(\<exists>rs'. promise_at s' c = Some (Pending rs') \<and> ThenStore d \<in> set rs')
        \<or> (\<exists>v. Job (ThenStore d) v \<in> set (microtasks s'))"
      if "promise_at s' d = Some (Pending rs0)" for rs0
      using that pd t by (simp add: P)
    show "(\<exists>rs'. promise_at s' d = Some (Pending rs') \<and> AwaitReturn q \<in> set rs')
        \<or> (\<exists>v. Job (AwaitReturn q) v \<in> set (microtasks s'))"
      if "q \<noteq> c" "q \<noteq> d" "promise_at s' q = Some (Pending rs0)" for q rs0
    proof -
      from that have qt: "q \<noteq> t" and "promise_at s q = Some (Pending rs0)"
        by (auto simp: P split: if_splits)
      from waited_for_other[OF l that(1,2) this(2)] pd qt show ?thesis
        by (auto simp: m M)
    qed
  qed
qed

subsection \<open>Both invariants hold in every reachable state\<close>

lemma well_formed_inv: "well_formed s \<Longrightarrow> coherent s"
  by (simp add: well_formed_def)

lemma well_formedD:
  assumes "well_formed s" "constructions s \<noteq> []"
  obtains c d where "constructions s = [c]" "singletonPromise s = Some d" "linked s c d"
    "waited_for s c d"
  using assms by (auto simp: well_formed_def coherent_def split: list.splits option.splits)

lemma well_formedI:
  "constructions s = [c] \<Longrightarrow> singletonPromise s = Some d \<Longrightarrow> linked s c d \<Longrightarrow> waited_for s c d \<Longrightarrow>
   well_formed s"
  by (simp add: well_formed_def coherent_def)

lemma well_formed_init: "well_formed init"
  by (simp add: well_formed_def coherent_init) (simp add: init_def)

lemma first_call_fields:
  "constructions s = [] \<Longrightarrow> promises s = [] \<Longrightarrow>
   constructions (first_call s) = [1] \<and> singletonPromise (first_call s) = Some 2"
  by (simp add: first_call_def)

lemma well_formed_getQuickJS:
  assumes "well_formed s"
  shows "well_formed (snd (getQuickJS s))"
proof (cases "constructions s")
  case Nil
  note z = coherentD0[OF well_formed_inv[OF assms] Nil]
  have "coherent (first_call s)" by (rule coherent_first_call[OF well_formed_inv[OF assms] Nil])
  moreover have "waited_for (first_call s) 1 2" by (rule waited_for_first_call[OF z(1)])
  ultimately have "well_formed (first_call s)"
    using first_call_fields[OF Nil z(1)] by (simp add: well_formed_def)
  then show ?thesis by (simp add: getQuickJS_first z)
next
  case (Cons a as)
  then have "constructions s \<noteq> []" by simp
  from well_formedD[OF assms this] obtain c d where c: "constructions s = [c]"
    and d: "singletonPromise s = Some d" and w: "linked s c d" and l: "waited_for s c d"
    by blast
  have "well_formed (perform_then d (AwaitReturn (length (promises s))) (snd (new_promise s)))"
  proof (rule well_formedI[of _ c d])
    show "linked (perform_then d (AwaitReturn (length (promises s))) (snd (new_promise s))) c d"
      by (rule linked_later_call[OF w])
    show "waited_for (perform_then d (AwaitReturn (length (promises s))) (snd (new_promise s))) c d"
      by (rule waited_for_later_call[OF w l])
  qed (simp_all add: c d)
  then show ?thesis
    by (simp add: getQuickJS_later d)
qed

lemma well_formed_factory_completes:
  assumes "well_formed s"
  shows "well_formed (factory_completes p l s)"
proof (cases "p \<in> set (constructions s) \<and> is_pending s p")
  case False
  then show ?thesis using assms by (auto simp: factory_completes_def)
next
  case True
  then have "constructions s \<noteq> []" by auto
  from well_formedD[OF assms this] obtain c d where c0: "constructions s = [c]"
    and d: "singletonPromise s = Some d" and w0: "linked s c d" and li0: "waited_for s c d"
    by blast
  from True c0 have "c = p" by simp
  with c0 w0 li0 have c: "constructions s = [p]" and w: "linked s p d" and li: "waited_for s p d"
    by simp_all
  from True obtain rs where rs: "promise_at s p = Some (Pending rs)"
    by (auto simp: is_pending_def split: option.splits promise_state.splits)
  define s1 where "s1 = snd (newQuickJSWASMModule l s)"
  have w1: "linked s1 p d"
    using w linked_cong[of s1 s p d] by (simp add: s1_def)
  have l1: "waited_for s1 p d"
    using li waited_for_cong[of s1 s p d] by (simp add: s1_def)
  have rs1: "promise_at s1 p = Some (Pending rs)"
    using rs promise_at_cong[of s1 s] by (simp add: s1_def)
  have f: "constructions s1 = [p]" "singletonPromise s1 = Some d"
    using c d by (simp_all add: s1_def)
  have "well_formed (settle_promise p v s1)" for v
  proof (rule well_formedI[of _ p d])
    show "constructions (settle_promise p v s1) = [p]" using f by simp
    show "singletonPromise (settle_promise p v s1) = Some d" using f by simp
    show "linked (settle_promise p v s1) p d" by (rule linked_settle_c[OF w1 rs1])
    show "waited_for (settle_promise p v s1) p d" by (rule waited_for_settle_c[OF w1 l1 rs1])
  qed
  moreover obtain r where "newQuickJSWASMModule l s = (r, s1)"
    by (cases "newQuickJSWASMModule l s") (simp add: s1_def)
  ultimately show ?thesis
    using True by (cases r) (simp_all add: factory_completes_def)
qed

lemma well_formed_run_microtask:
  assumes "well_formed s"
  shows "well_formed (run_microtask s)"
proof (cases "microtasks s")
  case Nil
  then show ?thesis using assms by (simp add: run_microtask_def)
next
  case (Cons j js)
  then have "constructions s \<noteq> []"
    using well_formed_inv[OF assms] by (auto simp: coherent_def)
  from well_formedD[OF assms this] obtain c d where c: "constructions s = [c]"
    and d: "singletonPromise s = Some d" and w: "linked s c d" and l: "waited_for s c d"
    by blast
  have js: "set js \<subseteq> set (microtasks s)" using Cons by auto
  have jin: "j \<in> set (microtasks s)" using Cons by simp
  obtain r v where j: "j = Job r v" by (cases j)
  have pc: "promise_at s c = Some (Settled v)"
    using linked_job_c[OF w] jin j by simp
  define s' where "s' = run_job j (s\<lparr>microtasks := js\<rparr>)"
  have "linked s' c d \<and> waited_for s' c d"
  proof (cases r)
    case (ThenStore t)
    then have t: "t = d" using linked_job_then[OF w] jin j by simp
    have m: "microtasks s = Job (ThenStore d) v # js"
      using Cons j ThenStore t by simp
    show ?thesis
    proof (cases v)
      case (Fulfilled m')
      show ?thesis
        using linked_settle_d[OF w pc js, of "Some m'"] waited_for_settle_d[OF w l pc m, of "Some m'"]
          Fulfilled
        by (simp add: s'_def j ThenStore t)
    next
      case (Rejected e)
      show ?thesis
        using linked_settle_d[OF w pc js, of "singleton s"]
          waited_for_settle_d[OF w l pc m, of "singleton s"] Rejected
        by (simp add: s'_def j ThenStore t)
    qed
  next
    case (AwaitReturn t)
    have m: "microtasks s = Job (AwaitReturn t) v # js"
      using Cons j AwaitReturn by simp
    show ?thesis
      using linked_settle_other[OF w _ js, of t v] waited_for_settle_other[OF w l m] jin j AwaitReturn
      by (simp add: s'_def)
  qed
  moreover have "constructions s' = [c]" "singletonPromise s' = Some d"
    using c d by (cases r; cases v; simp add: s'_def j)+
  ultimately have "well_formed s'"
    by (blast intro: well_formedI[of _ c d])
  then show ?thesis
    using Cons by (simp add: run_microtask_def s'_def)
qed

lemma well_formed_cong:
  assumes "promises s' = promises s" "singleton s' = singleton s"
    "microtasks s' = microtasks s" "constructions s' = constructions s"
    "singletonPromise s' = singletonPromise s"
  shows "well_formed s' = well_formed s"
  using coherent_cong[OF assms] waited_for_cong[OF assms(1,3)] by (simp add: well_formed_def assms)

lemma well_formed_step: "well_formed s \<Longrightarrow> well_formed (step e s)"
  by (cases e)
    (simp_all add: well_formed_getQuickJS well_formed_factory_completes well_formed_run_microtask
      well_formed_cong[of "snd (newQuickJSWASMModule _ s)" s]
      well_formed_cong[of "snd (newQuickJSAsyncWASMModule _ s)" s])

lemma well_formed_run: "well_formed s \<Longrightarrow> well_formed (run es s)"
  by (induction es arbitrary: s) (simp_all add: well_formed_step)

lemma well_formed_reachable: "well_formed (run es init)"
  by (simp add: well_formed_run well_formed_init)

subsection \<open>What never changes again\<close>

lemma promise_at_first_call:
  "promise_at s q = Some x \<Longrightarrow> promise_at (first_call s) q = Some x"
  by (auto simp: promise_at_def first_call_def nth_append split: if_splits)

lemma settled_getQuickJS:
  assumes "promise_at s q = Some (Settled v)"
  shows "promise_at (snd (getQuickJS s)) q = Some (Settled v)"
proof (cases "singletonPromise s")
  case None
  then show ?thesis using assms by (simp add: getQuickJS_first promise_at_first_call)
next
  case (Some d)
  have "q \<noteq> length (promises s)" using assms by (auto simp: promise_at_def)
  then show ?thesis
    using assms Some
    by (auto simp: getQuickJS_later promise_at_perform_then
        split: option.splits promise_state.splits)
qed

lemma settled_settle_promise:
  "promise_at s q = Some (Settled v) \<Longrightarrow> promise_at (settle_promise p u s) q = Some (Settled v)"
  by (auto simp: promise_at_settle_promise is_pending_def)

lemma settled_step:
  assumes "promise_at s q = Some (Settled v)"
  shows "promise_at (step e s) q = Some (Settled v)"
proof (cases e)
  case CallGetQuickJS
  then show ?thesis using assms by (simp add: settled_getQuickJS)
next
  case (FactoryCompletes p l)
  have "promise_at (snd (newQuickJSWASMModule l s)) q = Some (Settled v)"
    using assms promise_at_cong[of "snd (newQuickJSWASMModule l s)" s] by simp
  then show ?thesis
    using assms FactoryCompletes
    by (cases "newQuickJSWASMModule l s")
      (auto simp: factory_completes_def settled_settle_promise split: sum.splits)
next
  case RunMicrotask
  show ?thesis
  proof (cases "microtasks s")
    case Nil
    then show ?thesis using assms RunMicrotask by (simp add: run_microtask_def)
  next
    case (Cons j js)
    obtain r u where j: "j = Job r u" by (cases j)
    show ?thesis
      using assms RunMicrotask Cons j
      by (cases r; cases u) (simp_all add: run_microtask_def settled_settle_promise)
  qed
next
  case (CallNewQuickJSWASMModule l)
  then show ?thesis
    using assms promise_at_cong[of "snd (newQuickJSWASMModule l s)" s] by simp
next
  case (CallNewQuickJSAsyncWASMModule l)
  then show ?thesis
    using assms promise_at_cong[of "snd (newQuickJSAsyncWASMModule l s)" s] by simp
next
  case (CallNewAsyncRuntime options l)
  then show ?thesis
    using assms promise_at_cong[of "snd (newQuickJSAsyncWASMModule l s)" s] by simp
next
  case (CallNewAsyncContext options l)
  then show ?thesis
    using assms promise_at_cong[of "snd (newQuickJSAsyncWASMModule l s)" s] by simp
qed (use assms in simp)

lemma settled_run:
  "promise_at s q = Some (Settled v) \<Longrightarrow> promise_at (run es s) q = Some (Settled v)"
  by (induction es arbitrary: s) (simp_all add: settled_step)

lemma length_promises_step: "length (promises s) \<le> length (promises (step e s))"
proof (cases e)
  case CallGetQuickJS
  then show ?thesis
    by (cases "singletonPromise s") (simp_all add: getQuickJS_first getQuickJS_later first_call_def)
next
  case (FactoryCompletes p l)
  then show ?thesis
    by (cases "newQuickJSWASMModule l s")
      (use factory_fields(1)[of l s] in \<open>auto simp: factory_completes_def split: sum.splits\<close>)
next
  case RunMicrotask
  show ?thesis
  proof (cases "microtasks s")
    case Nil
    then show ?thesis using RunMicrotask by (simp add: run_microtask_def)
  next
    case (Cons j js)
    obtain r u where j: "j = Job r u" by (cases j)
    show ?thesis
      using RunMicrotask Cons j
      by (cases r; cases u) (simp_all add: run_microtask_def)
  qed
qed simp_all

lemma length_promises_run: "length (promises s) \<le> length (promises (run es s))"
proof (induction es arbitrary: s)
  case Nil
  then show ?case by simp
next
  case (Cons e es)
  show ?case
    using length_promises_step[of s e] Cons[of "step e s"] by simp
qed

lemma fixed_step:
  assumes "coherent s" "constructions s = [c]"
  shows "constructions (step e s) = [c] \<and> singletonPromise (step e s) = singletonPromise s"
proof -
  from assms obtain d where d: "singletonPromise s = Some d"
    by (auto simp: coherent_def split: option.splits)
  show ?thesis
  proof (cases e)
    case CallGetQuickJS
    then show ?thesis using assms d by (simp add: getQuickJS_later)
  next
    case (FactoryCompletes p l)
    then show ?thesis
      using assms d factory_fields(3,5)[of l s]
      by (cases "newQuickJSWASMModule l s")
        (auto simp: factory_completes_def split: sum.splits)
  next
    case RunMicrotask
    show ?thesis
    proof (cases "microtasks s")
      case Nil
      then show ?thesis using RunMicrotask assms by (simp add: run_microtask_def)
    next
      case (Cons j js)
      obtain r u where j: "j = Job r u" by (cases j)
      show ?thesis
        using RunMicrotask Cons j assms
        by (cases r; cases u) (simp_all add: run_microtask_def)
    qed
  qed (use assms in simp_all)
qed

lemma fixed_run:
  assumes "coherent s" "constructions s = [c]"
  shows "constructions (run es s) = [c] \<and> singletonPromise (run es s) = singletonPromise s"
  using assms
proof (induction es arbitrary: s)
  case Nil
  then show ?case by simp
next
  case (Cons e es)
  from fixed_step[OF Cons.prems, of e] coherent_step[OF Cons.prems(1), of e]
  show ?case using Cons.IH[of "step e s"] by simp
qed

subsection \<open>Running the queued jobs until none is left\<close>

text \<open>Each job run takes one unit of the pending work, so the draining terminates.\<close>

lemma sum_list_map_update:
  "p < length xs \<Longrightarrow>
   sum_list (map f (xs[p := y])) + f (xs ! p) = sum_list (map f xs) + (f y :: nat)"
proof (induction xs arbitrary: p)
  case Nil
  then show ?case by simp
next
  case (Cons x xs)
  then show ?case by (cases p) (simp_all add: add.assoc add.left_commute)
qed

lemma pending_work_settle_promise [simp]:
  "pending_work (settle_promise p v s) = pending_work s"
proof (cases "promise_at s p")
  case None
  then show ?thesis by (simp add: settle_promise_def)
next
  case (Some x)
  then have p: "p < length (promises s)" "promises s ! p = x"
    by (auto simp: promise_at_def split: if_splits)
  show ?thesis
  proof (cases x)
    case (Pending rs)
    from sum_list_map_update[OF p(1), of reactions_count "Settled v"] p(2) Pending
    show ?thesis
      using Some by (simp add: settle_promise_def pending_work_def)
  next
    case (Settled u)
    then show ?thesis using Some by (simp add: settle_promise_def)
  qed
qed

lemma pending_work_update [simp]:
  "pending_work (s\<lparr>singleton := a\<rparr>) = pending_work s"
  by (simp add: pending_work_def)

lemma pending_work_run_job:
  "pending_work (run_job j s) = pending_work s"
  by (cases "(j, s)" rule: run_job.cases) simp_all

lemma pending_work_run_microtask:
  "microtasks s \<noteq> [] \<Longrightarrow> pending_work (run_microtask s) < pending_work s"
  by (cases "microtasks s")
    (simp_all add: run_microtask_def pending_work_run_job, simp add: pending_work_def)

termination drain
  by (relation "measure pending_work") (simp_all add: pending_work_run_microtask)

declare drain.simps [simp del]

lemma drain_is_run: "\<exists>k. drain s = run (replicate k RunMicrotask) s"
proof (induction s rule: drain.induct)
  case (1 s)
  show ?case
  proof (cases "microtasks s = []")
    case True
    have "drain s = run (replicate 0 RunMicrotask) s"
      using True by (simp add: drain.simps[of s])
    then show ?thesis by blast
  next
    case False
    from 1[OF False] obtain k where "drain (run_microtask s) = run (replicate k RunMicrotask) (run_microtask s)"
      by blast
    then have "drain s = run (replicate (Suc k) RunMicrotask) s"
      using False by (simp add: drain.simps[of s])
    then show ?thesis by blast
  qed
qed

lemma microtasks_drain [simp]: "microtasks (drain s) = []"
  by (induction s rule: drain.induct) (simp add: drain.simps)

text \<open>
  In a state with no job left, once the factory's promise is settled every promise is
  settled, and with the same outcome.
\<close>

lemma all_settled:
  assumes g: "well_formed s" and m: "microtasks s = []" and c: "constructions s = [c]"
    and pc: "promise_at s c = Some (Settled v)" and q: "promise_at s q \<noteq> None"
  shows "promise_at s q = Some (Settled v)"
proof -
  from c have "constructions s \<noteq> []" by simp
  from well_formedD[OF g this] c obtain d where d: "singletonPromise s = Some d"
    and w: "linked s c d" and l: "waited_for s c d"
    by auto
  have same: "u = v" if "promise_at s q' = Some (Settled u)" for q' u
    using linked_settled_c[OF w that] pc by simp
  obtain xd where xd: "promise_at s d = Some xd" using linked_d[OF w] by auto
  have pd: "promise_at s d = Some (Settled v)"
  proof (cases xd)
    case (Pending rs)
    with waited_for_d[OF l, of rs] xd pc m show ?thesis by simp
  next
    case (Settled u)
    with same[of d u] xd show ?thesis by simp
  qed
  from q obtain x where x: "promise_at s q = Some x" by auto
  show ?thesis
  proof (cases x)
    case (Pending rs)
    have "q \<noteq> c" "q \<noteq> d" using x Pending pc pd by auto
    from waited_for_other[OF l this, of rs] x Pending pd m show ?thesis by simp
  next
    case (Settled u)
    with same[of q u] x show ?thesis by simp
  qed
qed

subsection \<open>Identities\<close>

lemma factory_result:
  assumes "newQuickJSWASMModule l s = (Inr m, s1)"
  shows "module_id m = next_object s" "instance_id (wasm_module m) = next_instance s"
    "next_object s1 = Suc (next_object s)" "next_instance s1 = Suc (next_instance s)"
    "binary (wasm_module m) = QuickJSBinary" "type_tag (wasm_module m) = Some ''sync''"
    "ffi m = QuickJSFFI (wasm_module m)"
    "imports_rejected l = None" "instantiation_rejected l = None"
  using assms
  by (auto simp: newQuickJSWASMModule_def wasmModuleLoader_def Let_def split: option.splits)

lemma factory_failure:
  assumes "newQuickJSWASMModule l s = (Inl e, s1)"
  shows "s1 = s" "imports_rejected l = Some e \<or> instantiation_rejected l = Some e"
  using assms
  by (auto simp: newQuickJSWASMModule_def wasmModuleLoader_def Let_def split: option.splits)

lemma async_factory_result:
  assumes "newQuickJSAsyncWASMModule l s = (Inr m, s1)"
  shows "async_module_id m = next_object s"
    "instance_id (async_wasm_module m) = next_instance s"
    "next_object s1 = Suc (next_object s)" "next_instance s1 = Suc (next_instance s)"
    "binary (async_wasm_module m) = QuickJSAsyncifyBinary"
    "type_tag (async_wasm_module m) = Some ''async''"
    "async_ffi m = QuickJSAsyncFFI (async_wasm_module m)"
    "imports_rejected l = None" "instantiation_rejected l = None"
  using assms
  by (auto simp: newQuickJSAsyncWASMModule_def wasmModuleLoader_def Let_def
      split: option.splits)

lemma async_factory_failure:
  assumes "newQuickJSAsyncWASMModule l s = (Inl e, s1)"
  shows "s1 = s" "imports_rejected l = Some e \<or> instantiation_rejected l = Some e"
  using assms
  by (auto simp: newQuickJSAsyncWASMModule_def wasmModuleLoader_def Let_def
      split: option.splits)

lemma factory_counters:
  "next_object s \<le> next_object (snd (newQuickJSWASMModule l s))"
  "next_instance s \<le> next_instance (snd (newQuickJSWASMModule l s))"
  "next_object s \<le> next_object (snd (newQuickJSAsyncWASMModule l s))"
  "next_instance s \<le> next_instance (snd (newQuickJSAsyncWASMModule l s))"
  by (simp_all add: newQuickJSWASMModule_def newQuickJSAsyncWASMModule_def
      wasmModuleLoader_def Let_def split: option.splits)

lemma getQuickJS_counters [simp]:
  "next_object (snd (getQuickJS s)) = next_object s"
  "next_instance (snd (getQuickJS s)) = next_instance s"
  by (cases "singletonPromise s";
      simp add: getQuickJS_first getQuickJS_later first_call_def)+

lemma run_job_counters [simp]:
  "next_object (run_job j s) = next_object s"
  "next_instance (run_job j s) = next_instance s"
  by (cases "(j, s)" rule: run_job.cases; simp)+

lemma counters_step:
  "next_object s \<le> next_object (step e s) \<and> next_instance s \<le> next_instance (step e s)"
proof (cases e)
  case (FactoryCompletes p l)
  then show ?thesis
    using factory_counters(1,2)[of s l]
    by (cases "newQuickJSWASMModule l s") (auto simp: factory_completes_def split: sum.splits)
next
  case RunMicrotask
  then show ?thesis
    by (cases "microtasks s") (simp_all add: run_microtask_def)
qed (simp_all add: factory_counters)

lemma counters_run:
  "next_object s \<le> next_object (run es s) \<and> next_instance s \<le> next_instance (run es s)"
proof (induction es arbitrary: s)
  case Nil
  then show ?case by simp
next
  case (Cons e es)
  show ?case
    using counters_step[of s e] Cons[of "step e s"] by auto
qed

lemma settled_getQuickJS_rev:
  assumes "promise_at (snd (getQuickJS s)) q = Some (Settled v)"
  shows "promise_at s q = Some (Settled v)"
proof (cases "singletonPromise s")
  case None
  with assms have "promise_at (first_call s) q = Some (Settled v)"
    by (simp add: getQuickJS_first)
  then show ?thesis
    by (auto simp: promise_at_def first_call_def nth_append nth_Cons
        split: if_splits nat.splits)
next
  case (Some d)
  with assms show ?thesis
    by (auto simp: getQuickJS_later promise_at_perform_then
        split: option.splits promise_state.splits if_splits)
qed

text \<open>
  A module found in a fulfilled promise after a step was in one before the step, or was
  made by this very step from the two counters.
\<close>

lemma fulfilled_step:
  assumes g: "well_formed s"
    and f: "promise_at (step e s) q = Some (Settled (Fulfilled m))"
  shows "(\<exists>q'. promise_at s q' = Some (Settled (Fulfilled m)))
    \<or> (module_id m = next_object s \<and> instance_id (wasm_module m) = next_instance s
       \<and> next_object s < next_object (step e s)
       \<and> next_instance s < next_instance (step e s))"
proof (cases e)
  case CallGetQuickJS
  with f show ?thesis by (auto dest: settled_getQuickJS_rev)
next
  case CallGetQuickJSSync
  with f show ?thesis by auto
next
  case (FactoryCompletes p l)
  show ?thesis
  proof (cases "p \<in> set (constructions s) \<and> is_pending s p")
    case False
    with f FactoryCompletes show ?thesis by (auto simp: factory_completes_def)
  next
    case True
    obtain r s1 where r: "newQuickJSWASMModule l s = (r, s1)"
      by (cases "newQuickJSWASMModule l s")
    have P1: "promise_at s1 = promise_at s"
      using promise_at_cong[of s1 s] factory_fields(1)[of l s] r by simp
    show ?thesis
    proof (cases r)
      case (Inl err)
      with f FactoryCompletes True r P1 show ?thesis
        by (auto simp: factory_completes_def promise_at_settle_promise split: if_splits)
    next
      case (Inr inst)
      from factory_result[OF r[unfolded Inr]] f FactoryCompletes True r P1 Inr
      show ?thesis
        by (auto simp: factory_completes_def promise_at_settle_promise split: if_splits)
    qed
  qed
next
  case RunMicrotask
  show ?thesis
  proof (cases "microtasks s")
    case Nil
    with f RunMicrotask show ?thesis by (auto simp: run_microtask_def)
  next
    case (Cons j js)
    then have "constructions s \<noteq> []"
      using well_formed_inv[OF g] by (auto simp: coherent_def)
    from well_formedD[OF g this] obtain c d where w: "linked s c d" by blast
    obtain r v where j: "j = Job r v" by (cases j)
    have pc: "promise_at s c = Some (Settled v)"
      using linked_job_c[OF w, of r v] Cons j by simp
    have "promise_at s q = Some (Settled (Fulfilled m)) \<or> v = Fulfilled m"
      using f RunMicrotask Cons j
      by (cases r; cases v)
        (auto simp: run_microtask_def promise_at_settle_promise split: if_splits)
    with pc show ?thesis by auto
  qed
next
  case (CallNewQuickJSWASMModule l)
  with f promise_at_cong[of "snd (newQuickJSWASMModule l s)" s] show ?thesis by auto
next
  case (CallNewQuickJSAsyncWASMModule l)
  with f promise_at_cong[of "snd (newQuickJSAsyncWASMModule l s)" s] show ?thesis by auto
next
  case (CallNewAsyncRuntime options l)
  with f promise_at_cong[of "snd (newQuickJSAsyncWASMModule l s)" s] show ?thesis by auto
next
  case (CallNewAsyncContext options l)
  with f promise_at_cong[of "snd (newQuickJSAsyncWASMModule l s)" s] show ?thesis by auto
qed

lemma ids_bounded_step:
  assumes "well_formed s" "ids_bounded s"
  shows "ids_bounded (step e s)"
  unfolding ids_bounded_def
proof (intro allI impI)
  fix q m
  assume "promise_at (step e s) q = Some (Settled (Fulfilled m))"
  from fulfilled_step[OF assms(1) this] assms(2) counters_step[of s e]
  show "module_id m < next_object (step e s)
    \<and> instance_id (wasm_module m) < next_instance (step e s)"
    by (fastforce simp: ids_bounded_def)
qed

lemma ids_bounded_run: "well_formed s \<Longrightarrow> ids_bounded s \<Longrightarrow> ids_bounded (run es s)"
  by (induction es arbitrary: s) (simp_all add: ids_bounded_step well_formed_step)

lemma ids_bounded_reachable: "ids_bounded (run es init)"
  by (rule ids_bounded_run[OF well_formed_init]) (simp add: ids_bounded_def init_def promise_at_def)

lemma ids_avoided_step:
  assumes "well_formed s" "ids_avoided k k' s"
  shows "ids_avoided k k' (step e s)"
  unfolding ids_avoided_def
proof (intro conjI allI impI)
  show "k < next_object (step e s)" "k' < next_instance (step e s)"
    using assms(2) counters_step[of s e] by (auto simp: ids_avoided_def)
  fix q m
  assume "promise_at (step e s) q = Some (Settled (Fulfilled m))"
  from fulfilled_step[OF assms(1) this] assms(2)
  show "module_id m \<noteq> k" "instance_id (wasm_module m) \<noteq> k'"
    by (fastforce simp: ids_avoided_def)+
qed

lemma ids_avoided_run: "well_formed s \<Longrightarrow> ids_avoided k k' s \<Longrightarrow> ids_avoided k k' (run es s)"
  by (induction es arbitrary: s) (simp_all add: ids_avoided_step well_formed_step)

lemma singleton_fulfilled:
  assumes "well_formed s" "singleton s = Some m"
  shows "\<exists>q. promise_at s q = Some (Settled (Fulfilled m))"
proof -
  have "constructions s \<noteq> []"
    using assms well_formed_inv[OF assms(1)] by (auto simp: coherent_def)
  from well_formedD[OF assms(1) this] obtain c d where w: "linked s c d" by blast
  from linked_singleton[OF w] assms(2) show ?thesis
    by (auto split: option.splits promise_state.splits outcome.splits)
qed

section \<open>The shared module instance: the claims\<close>

lemma singleton_is_initializer_result:
  assumes "well_formed s"
  shows "singleton s = initializer_result s"
proof (cases "constructions s")
  case Nil
  from coherentD0[OF well_formed_inv[OF assms] Nil] show ?thesis
    by (simp add: initializer_result_def)
next
  case (Cons a as)
  then have "constructions s \<noteq> []" by simp
  from well_formedD[OF assms this] obtain c d where "singletonPromise s = Some d" "linked s c d"
    by blast
  then show ?thesis
    using linked_singleton[of s c d] by (simp add: initializer_result_def)
qed

lemma initializer_result_run:
  assumes g: "well_formed s" and i: "initializer_result s = Some m"
  shows "initializer_result (run es s) = Some m"
proof -
  from i obtain d where d: "singletonPromise s = Some d"
    and pd: "promise_at s d = Some (Settled (Fulfilled m))"
    by (auto simp: initializer_result_def
        split: option.splits promise_state.splits outcome.splits)
  have "constructions s \<noteq> []"
    using d well_formed_inv[OF g] by (auto simp: coherent_def)
  from well_formedD[OF g this] obtain c where "constructions s = [c]" by blast
  from fixed_run[OF well_formed_inv[OF g] this, of es] d settled_run[OF pd, of es]
  show ?thesis by (simp add: initializer_result_def)
qed

lemma getQuickJS_result:
  assumes "getQuickJS s = (p, s1)"
  shows "p = length (promises s)" "p < length (promises s1)" "s1 = step CallGetQuickJS s"
  using assms
  by (cases "singletonPromise s";
      auto simp: getQuickJS_first getQuickJS_later first_call_def)+

lemma getQuickJS_construction:
  assumes g: "well_formed s" and r: "getQuickJS s = (p, s1)"
  obtains c where "constructions s1 = [c]" "c \<noteq> p"
proof (cases "constructions s")
  case Nil
  from coherentD0[OF well_formed_inv[OF g] Nil] r
  have "constructions s1 = [1]" "p = 0"
    using Nil by (auto simp: getQuickJS_first first_call_def)
  then show ?thesis using that[of 1] by simp
next
  case (Cons a as)
  then have "constructions s \<noteq> []" by simp
  from well_formedD[OF g this] obtain c d where c: "constructions s = [c]"
    and d: "singletonPromise s = Some d" and w: "linked s c d"
    by blast
  have "c < length (promises s)"
    using linked_c[OF w] by (auto simp: promise_at_def split: if_splits)
  then show ?thesis
    using that[of c] r c d by (auto simp: getQuickJS_later)
qed

lemma promise_exists:
  "p < length (promises s) \<Longrightarrow> promise_at (run es s) p \<noteq> None"
  using length_promises_run[of s es] by (simp add: promise_at_def)

lemma well_formed_drain: "well_formed s \<Longrightarrow> well_formed (drain s)"
  using drain_is_run[of s] well_formed_run by auto

lemma drained_outcome:
  assumes g: "well_formed s" and c: "constructions s = [c]"
    and pc: "promise_at s c = Some (Settled v)" and p: "p < length (promises s)"
  shows "promise_at (drain s) p = Some (Settled v)"
proof -
  obtain k where k: "drain s = run (replicate k RunMicrotask) s"
    using drain_is_run by blast
  show ?thesis
  proof (rule all_settled[OF well_formed_drain[OF g] microtasks_drain])
    show "constructions (drain s) = [c]"
      using fixed_run[OF well_formed_inv[OF g] c] k by simp
    show "promise_at (drain s) c = Some (Settled v)"
      using settled_run[OF pc] k by simp
    show "promise_at (drain s) p \<noteq> None"
      using promise_exists[OF p] k by simp
  qed
qed

text \<open>Sample executions, evaluated.\<close>

lemmas eval_defs =
  init_def getQuickJS_def new_promise_def perform_then_def promise_at_def settle_promise_def
  factory_completes_def is_pending_def run_microtask_def newQuickJSWASMModule_def
  wasmModuleLoader_def Let_def getQuickJSSync_def

lemma example_resolved:
  "run [CallGetQuickJS, FactoryCompletes 1 loads, RunMicrotask] init =
     \<lparr>singleton = Some first_module, singletonPromise = Some 2,
      promises = [Pending [], Settled (Fulfilled first_module), Settled (Fulfilled first_module)],
      microtasks = [Job (AwaitReturn 0) (Fulfilled first_module)],
      constructions = [1], next_object = 1, next_instance = 1\<rparr>"
  by (simp add: eval_defs loads_def first_module_def)

lemma example_rejected:
  "run [CallGetQuickJS, FactoryCompletes 1 (fails (Error ''no binary''))] init =
     \<lparr>singleton = None, singletonPromise = Some 2,
      promises = [Pending [], Settled (Rejected (Error ''no binary'')), Pending [AwaitReturn 0]],
      microtasks = [Job (ThenStore 2) (Rejected (Error ''no binary''))],
      constructions = [1], next_object = 0, next_instance = 0\<rparr>"
  by (simp add: eval_defs fails_def)

text \<open>
  C1. In every state the process can reach, a call of \<open>getQuickJSSync\<close> throws the
  initialization-order error when the initializer started by \<open>getQuickJS\<close> has not
  completed, and returns the instance it completed with otherwise. An initializer that
  has completed has completed for good, so "has not completed" is "has never completed".
\<close>

theorem getQuickJSSync_follows_initializer:
  "getQuickJSSync (run es init) =
     (case initializer_result (run es init) of
        None \<Rightarrow> Inl (Error ''QuickJS not initialized. Await getQuickJS() at least once.'')
      | Some instance \<Rightarrow> Inr instance)
   \<and> (\<forall>instance. initializer_result (run es init) = Some instance \<longrightarrow>
        initializer_result (run es' (run es init)) = Some instance)"
proof -
  have g: "well_formed (run es init)" by (rule well_formed_reachable)
  show ?thesis
    using singleton_is_initializer_result[OF g] initializer_result_run[OF g, of _ es']
    by (simp add: getQuickJSSync_def)
qed

theorem getQuickJSSync_follows_initializer_witness:
  "initializer_result (run [] init) = None
   \<and> getQuickJSSync (run [] init)
       = Inl (Error ''QuickJS not initialized. Await getQuickJS() at least once.'')
   \<and> initializer_result (run [CallGetQuickJS, FactoryCompletes 1 loads, RunMicrotask] init)
       = Some first_module
   \<and> getQuickJSSync (run [CallGetQuickJS, FactoryCompletes 1 loads, RunMicrotask] init)
       = Inr first_module
   \<and> initializer_result
        (run [CallGetQuickJSSync, CallGetQuickJS]
           (run [CallGetQuickJS, FactoryCompletes 1 loads, RunMicrotask] init))
       = Some first_module"
proof -
  have a: "initializer_result (run [] init) = None"
    by (simp add: eval_defs initializer_result_def)
  have b: "initializer_result (run [CallGetQuickJS, FactoryCompletes 1 loads, RunMicrotask] init)
       = Some first_module"
    unfolding example_resolved by (simp add: initializer_result_def promise_at_def)
  show ?thesis
    using a b getQuickJSSync_follows_initializer [of "[]" "[]"]
      getQuickJSSync_follows_initializer
        [of "[CallGetQuickJS, FactoryCompletes 1 loads, RunMicrotask]"
            "[CallGetQuickJSSync, CallGetQuickJS]"]
    by simp
qed

lemma constructions_other_step:
  "CallGetQuickJS \<noteq> e \<Longrightarrow> constructions (step e s) = constructions s"
proof (cases e)
  case (FactoryCompletes p l)
  then show ?thesis
    using factory_fields(5)[of l s]
    by (cases "newQuickJSWASMModule l s") (auto simp: factory_completes_def split: sum.splits)
next
  case RunMicrotask
  show ?thesis
  proof (cases "microtasks s")
    case Nil
    then show ?thesis using RunMicrotask by (simp add: run_microtask_def)
  next
    case (Cons j js)
    obtain r u where "j = Job r u" by (cases j)
    then show ?thesis
      using RunMicrotask Cons by (cases r; cases u) (simp_all add: run_microtask_def)
  qed
qed simp_all

lemma constructions_lazy:
  "CallGetQuickJS \<notin> set es \<Longrightarrow> constructions (run es s) = constructions s"
  by (induction es arbitrary: s) (simp_all add: constructions_other_step)

text \<open>
  C2. In every execution \<open>newQuickJSWASMModule\<close> is invoked by \<open>getQuickJS\<close> at most once,
  and not before the first call. For any two calls of \<open>getQuickJS\<close>, however the execution
  goes on: there is one invocation, the promise kept in \<open>singletonPromise\<close> is the one the
  first call left, the two calls have promises of their own, and when both are fulfilled
  it is with the same instance; once \<open>singleton\<close> holds an instance it holds it ever
  after, and both calls are fulfilled with it when the queued jobs have run.
\<close>

theorem shared_module_created_once_and_kept:
  assumes "getQuickJS (run es1 init) = (p, s1)"
    and "getQuickJS (run es2 s1) = (q, s2)"
  shows "length (constructions (run es init)) \<le> 1
    \<and> (CallGetQuickJS \<notin> set es \<longrightarrow> constructions (run es init) = [])
    \<and> length (constructions (run es3 s2)) = 1
    \<and> constructions (run es3 s2) = constructions s1
    \<and> singletonPromise (run es3 s2) = singletonPromise s1
    \<and> p \<noteq> q
    \<and> (\<forall>m m'. promise_at (run es3 s2) p = Some (Settled (Fulfilled m)) \<longrightarrow>
          promise_at (run es3 s2) q = Some (Settled (Fulfilled m')) \<longrightarrow> m = m')
    \<and> (\<forall>m. singleton (run es3 s2) = Some m \<longrightarrow>
          singleton (run es4 (run es3 s2)) = Some m
          \<and> promise_at (drain (run es3 s2)) p = Some (Settled (Fulfilled m))
          \<and> promise_at (drain (run es3 s2)) q = Some (Settled (Fulfilled m)))"
proof -
  define s0 where "s0 = run es1 init"
  define t0 where "t0 = run es2 s1"
  define t where "t = run es3 s2"
  note r1 = getQuickJS_result[OF assms(1)[folded s0_def]]
  note r2 = getQuickJS_result[OF assms(2)[folded t0_def]]
  have g0: "well_formed s0" by (simp add: s0_def well_formed_reachable)
  have g1: "well_formed s1" using g0 r1(3) by (simp add: well_formed_getQuickJS)
  have gt0: "well_formed t0" using g1 by (simp add: t0_def well_formed_run)
  have g2: "well_formed s2" using gt0 r2(3) by (simp add: well_formed_getQuickJS)
  have gt: "well_formed t" using g2 by (simp add: t_def well_formed_run)
  from getQuickJS_construction[OF g0 assms(1)[folded s0_def]]
  obtain c where c1: "constructions s1 = [c]" and cp: "c \<noteq> p" by blast
  have f0: "constructions t0 = [c]" "singletonPromise t0 = singletonPromise s1"
    using fixed_run[OF well_formed_inv[OF g1] c1, of es2] by (simp_all add: t0_def)
  have f2: "constructions s2 = [c]" "singletonPromise s2 = singletonPromise s1"
    using fixed_step[OF well_formed_inv[OF gt0] f0(1), of CallGetQuickJS] f0(2) r2(3) by simp_all
  have ft: "constructions t = [c]" "singletonPromise t = singletonPromise s1"
    using fixed_run[OF well_formed_inv[OF g2] f2(1), of es3] f2(2) by (simp_all add: t_def)
  have "length (promises s1) \<le> length (promises t0)"
    by (simp add: t0_def length_promises_run)
  with r1 r2 have pq: "p < q" by simp
  have "length (promises s2) \<le> length (promises t)"
    by (simp add: t_def length_promises_run)
  with r2 pq have len: "p < length (promises t)" "q < length (promises t)" by simp_all
  from well_formedD[OF gt] ft obtain d where d: "singletonPromise t = Some d" and w: "linked t c d"
    by auto
  have count: "length (constructions (run es init)) \<le> 1"
    using well_formed_inv[OF well_formed_reachable[of es]] by (auto simp: coherent_def split: list.splits)
  have lazy: "CallGetQuickJS \<notin> set es \<longrightarrow> constructions (run es init) = []"
    using constructions_lazy[of es init] by (simp add: init_def)
  have same: "m = m'"
    if "promise_at t p = Some (Settled (Fulfilled m))"
      "promise_at t q = Some (Settled (Fulfilled m'))" for m m'
    using linked_settled_c[OF w that(1)] linked_settled_c[OF w that(2)] by simp
  have kept: "singleton (run es4 t) = Some m
      \<and> promise_at (drain t) p = Some (Settled (Fulfilled m))
      \<and> promise_at (drain t) q = Some (Settled (Fulfilled m))"
    if "singleton t = Some m" for m
  proof -
    have i: "initializer_result t = Some m"
      using that singleton_is_initializer_result[OF gt] by simp
    have "singleton (run es4 t) = Some m"
      using initializer_result_run[OF gt i, of es4]
        singleton_is_initializer_result[OF well_formed_run[OF gt, of es4]] by simp
    moreover from i d have "promise_at t d = Some (Settled (Fulfilled m))"
      by (auto simp: initializer_result_def
          split: option.splits promise_state.splits outcome.splits)
    then have "promise_at t c = Some (Settled (Fulfilled m))"
      by (rule linked_settled_c[OF w])
    note drained_outcome[OF gt ft(1) this]
    ultimately show ?thesis using len by simp
  qed
  show ?thesis
    using count lazy ft c1 pq same kept by (simp add: t_def)
qed

text \<open>
  C5. When a call of \<open>getQuickJS\<close> has resolved with the module \<open>m\<close>, every later call of
  \<open>getQuickJSSync\<close> returns \<open>m\<close> itself.
\<close>

theorem sync_accessor_returns_resolved_instance:
  assumes "getQuickJS (run es1 init) = (p, s1)"
    and "promise_at (run es2 s1) p = Some (Settled (Fulfilled m))"
  shows "getQuickJSSync (run es3 (run es2 s1)) = Inr m"
proof -
  define s0 where "s0 = run es1 init"
  define t where "t = run es2 s1"
  note r1 = getQuickJS_result[OF assms(1)[folded s0_def]]
  have g0: "well_formed s0" by (simp add: s0_def well_formed_reachable)
  have g1: "well_formed s1" using g0 r1(3) by (simp add: well_formed_getQuickJS)
  have gt: "well_formed t" using g1 by (simp add: t_def well_formed_run)
  from getQuickJS_construction[OF g0 assms(1)[folded s0_def]]
  obtain c where c1: "constructions s1 = [c]" and cp: "c \<noteq> p" by blast
  have ft: "constructions t = [c]"
    using fixed_run[OF well_formed_inv[OF g1] c1, of es2] by (simp add: t_def)
  from well_formedD[OF gt] ft obtain d where d: "singletonPromise t = Some d" and w: "linked t c d"
    by auto
  have "promise_at t d = Some (Settled (Fulfilled m))"
    using linked_settled_d[OF w, of p] cp assms(2) by (simp add: t_def)
  then have "initializer_result t = Some m"
    using d by (simp add: initializer_result_def)
  from initializer_result_run[OF gt this, of es3]
    singleton_is_initializer_result[OF well_formed_run[OF gt, of es3]]
  show ?thesis by (simp add: getQuickJSSync_def t_def)
qed

text \<open>
  C10. When the construction started by \<open>getQuickJS\<close> has rejected with \<open>e\<close>, then
  however the execution goes on: \<open>singleton\<close> is not set, \<open>getQuickJSSync\<close> throws the
  initialization-order error, the factory is not invoked again, also not by a further
  call of \<open>getQuickJS\<close>, and the promise of such a call is rejected with \<open>e\<close> when the
  queued jobs have run.
\<close>

theorem failed_initialization_is_cached:
  assumes "c \<in> set (constructions (run es init))"
    and "promise_at (run es init) c = Some (Settled (Rejected e))"
  shows "singleton (run es' (run es init)) = None
    \<and> getQuickJSSync (run es' (run es init))
        = Inl (Error ''QuickJS not initialized. Await getQuickJS() at least once.'')
    \<and> constructions (run es' (run es init)) = [c]
    \<and> constructions (snd (getQuickJS (run es' (run es init)))) = [c]
    \<and> promise_at (drain (run es'' (snd (getQuickJS (run es' (run es init))))))
          (fst (getQuickJS (run es' (run es init))))
        = Some (Settled (Rejected e))"
proof -
  define s where "s = run es init"
  define t where "t = run es' s"
  obtain p t1 where call: "getQuickJS t = (p, t1)" by (cases "getQuickJS t")
  define u where "u = run es'' t1"
  note r = getQuickJS_result[OF call]
  have g: "well_formed s" by (simp add: s_def well_formed_reachable)
  have gt: "well_formed t" using g by (simp add: t_def well_formed_run)
  have g1: "well_formed t1" using gt r(3) by (simp add: well_formed_getQuickJS)
  have gu: "well_formed u" using g1 by (simp add: u_def well_formed_run)
  have c: "constructions s = [c]"
    using assms(1) well_formed_inv[OF g] by (auto simp: coherent_def s_def split: list.splits)
  have ct: "constructions t = [c]"
    using fixed_run[OF well_formed_inv[OF g] c, of es'] by (simp add: t_def)
  have c1: "constructions t1 = [c]"
    using fixed_step[OF well_formed_inv[OF gt] ct, of CallGetQuickJS] r(3) by simp
  have cu: "constructions u = [c]"
    using fixed_run[OF well_formed_inv[OF g1] c1, of es''] by (simp add: u_def)
  have pt: "promise_at t c = Some (Settled (Rejected e))"
    using settled_run[OF assms(2), of es'] by (simp add: t_def s_def)
  have pu: "promise_at u c = Some (Settled (Rejected e))"
    using settled_run[OF settled_step[OF pt, of CallGetQuickJS], of es''] r(3)
    by (simp add: u_def)
  from well_formedD[OF gt] ct obtain d where w: "linked t c d" by auto
  have none: "singleton t = None"
  proof (cases "singleton t")
    case None
    then show ?thesis .
  next
    case (Some m)
    from singleton_fulfilled[OF gt Some] obtain q
      where "promise_at t q = Some (Settled (Fulfilled m))" by blast
    from linked_settled_c[OF w this] pt show ?thesis by simp
  qed
  have "length (promises t1) \<le> length (promises u)"
    by (simp add: u_def length_promises_run)
  with r have "p < length (promises u)" by simp
  from drained_outcome[OF gu cu pu this]
  have "promise_at (drain u) p = Some (Settled (Rejected e))" .
  then show ?thesis
    using none ct c1 call by (simp add: getQuickJSSync_def t_def s_def u_def)
qed

section \<open>Module factories: the claims\<close>








section \<open>Asynchronous runtimes and contexts: the claims\<close>

text \<open>
  What a successful call returns was made by the method of one module, and
  \<open>module_of_call\<close> names that module.
\<close>

lemma newAsyncRuntime_module:
  assumes "newAsyncRuntime options l s = (Inr rt, s1)"
  shows "module_of_call (NewAsyncRuntime options) l s = (Inr (runtime_module rt), s1)"
    and "rt = newRuntime (runtime_module rt) options"
  using assms
  by (auto simp: newAsyncRuntime_def newRuntime_def split: prod.splits sum.splits)

lemma newAsyncContext_module:
  assumes "newAsyncContext options l s = (Inr ctx, s1)"
  shows "module_of_call (NewAsyncContext options) l s
         = (Inr (runtime_module (context_runtime ctx)), s1)"
    and "ctx = newContext (runtime_module (context_runtime ctx)) options"
  using assms
  by (auto simp: newAsyncContext_def newContext_def newRuntime_def split: prod.splits sum.splits)

lemma module_of_call_factory:
  assumes "module_of_call call l s = (Inr m, s1)"
  shows "newQuickJSAsyncWASMModule l s = (Inr m, s1)"
proof (cases "newQuickJSAsyncWASMModule l s")
  case (Pair r s')
  show ?thesis
  proof (cases r)
    case (Inl e)
    with Pair assms show ?thesis
      by (cases call) (simp_all add: newAsyncRuntime_def newAsyncContext_def)
  next
    case (Inr m')
    with Pair assms show ?thesis
      by (cases call)
        (simp_all add: newAsyncRuntime_def newAsyncContext_def newRuntime_def newContext_def)
  qed
qed

lemma async_call_avoided:
  assumes g: "well_formed s" and b: "ids_bounded s"
    and r: "newQuickJSAsyncWASMModule l s = (Inr m, s1)"
  shows "well_formed s1" "ids_bounded s1"
    "ids_avoided (async_module_id m) (instance_id (async_wasm_module m)) s1"
proof -
  have s1: "s1 = step (CallNewQuickJSAsyncWASMModule l) s" using r by simp
  show "well_formed s1" using g by (simp only: s1 well_formed_step)
  show "ids_bounded s1" using g b by (simp only: s1 ids_bounded_step)
  have P: "promise_at s1 = promise_at s"
    using promise_at_cong[of s1 s] async_factory_fields(1)[of l s] r by simp
  show "ids_avoided (async_module_id m) (instance_id (async_wasm_module m)) s1"
    using async_factory_result[OF r] b by (fastforce simp: ids_avoided_def ids_bounded_def P)
qed

text \<open>
  C7. Take any two calls of \<open>newAsyncRuntime\<close> or \<open>newAsyncContext\<close> in an execution, both
  successful. The module each runtime (or context's runtime) lives in is the one that the
  call's own invocation of \<open>newQuickJSAsyncWASMModule\<close> made, on the asyncify binary; the
  two modules differ, as objects and in their instantiation of the binary; and neither is
  the shared module, whether that was set before the calls or is set at any time after.
\<close>

theorem async_calls_use_fresh_modules:
  assumes "module_of_call call1 l1 (run es init) = (Inr m1, s1)"
    and "module_of_call call2 l2 (run es' s1) = (Inr m2, s2)"
  shows "newQuickJSAsyncWASMModule l1 (run es init) = (Inr m1, s1)
    \<and> newQuickJSAsyncWASMModule l2 (run es' s1) = (Inr m2, s2)
    \<and> binary (async_wasm_module m1) = QuickJSAsyncifyBinary
    \<and> type_tag (async_wasm_module m1) = Some ''async''
    \<and> async_module_id m1 \<noteq> async_module_id m2
    \<and> instance_id (async_wasm_module m1) \<noteq> instance_id (async_wasm_module m2)
    \<and> (\<forall>shared. singleton (run es init) = Some shared \<or> singleton (run es'' s2) = Some shared
          \<longrightarrow> module_id shared \<noteq> async_module_id m1
            \<and> module_id shared \<noteq> async_module_id m2
            \<and> instance_id (wasm_module shared) \<noteq> instance_id (async_wasm_module m1)
            \<and> instance_id (wasm_module shared) \<noteq> instance_id (async_wasm_module m2))"
proof -
  define s where "s = run es init"
  define t where "t = run es' s1"
  define u where "u = run es'' s2"
  note f1 = module_of_call_factory[OF assms(1)[folded s_def]]
  note f2 = module_of_call_factory[OF assms(2)[folded t_def]]
  define k1 where "k1 = async_module_id m1"
  define i1 where "i1 = instance_id (async_wasm_module m1)"
  define k2 where "k2 = async_module_id m2"
  define i2 where "i2 = instance_id (async_wasm_module m2)"
  have g: "well_formed s" "ids_bounded s" by (simp_all add: s_def well_formed_reachable ids_bounded_reachable)
  note a1 = async_call_avoided[OF g f1, folded k1_def i1_def]
  have gt: "well_formed t" "ids_bounded t" "ids_avoided k1 i1 t"
    using a1 by (simp_all add: t_def well_formed_run ids_bounded_run ids_avoided_run)
  note a2 = async_call_avoided[OF gt(1,2) f2, folded k2_def i2_def]
  have s2: "s2 = step (CallNewQuickJSAsyncWASMModule l2) t" using f2 by simp
  have a12: "ids_avoided k1 i1 s2" using gt(1,3) by (simp only: s2 ids_avoided_step)
  have gu: "well_formed u" "ids_avoided k1 i1 u" "ids_avoided k2 i2 u"
    using a2 a12 by (simp_all add: u_def well_formed_run ids_avoided_run)
  have diff: "k1 \<noteq> k2" "i1 \<noteq> i2"
    using async_factory_result(1,2)[OF f2] gt(3) by (simp_all add: ids_avoided_def k2_def i2_def)
  have later: "module_id shared \<noteq> k1 \<and> module_id shared \<noteq> k2
      \<and> instance_id (wasm_module shared) \<noteq> i1 \<and> instance_id (wasm_module shared) \<noteq> i2"
    if "singleton u = Some shared" for shared
  proof -
    from singleton_fulfilled[OF gu(1) that] obtain q
      where "promise_at u q = Some (Settled (Fulfilled shared))" by blast
    with gu(2,3) show ?thesis by (simp add: ids_avoided_def)
  qed
  have earlier: "module_id shared \<noteq> k1 \<and> module_id shared \<noteq> k2
      \<and> instance_id (wasm_module shared) \<noteq> i1 \<and> instance_id (wasm_module shared) \<noteq> i2"
    if "singleton s = Some shared" for shared
  proof -
    from singleton_fulfilled[OF g(1) that] obtain q
      where q: "promise_at s q = Some (Settled (Fulfilled shared))" by blast
    have "promise_at s1 q = Some (Settled (Fulfilled shared))"
      using q promise_at_cong[of s1 s] async_factory_fields(1)[of l1 s] f1 by simp
    then have "promise_at t q = Some (Settled (Fulfilled shared))"
      by (simp add: t_def settled_run)
    then have "promise_at s2 q = Some (Settled (Fulfilled shared))"
      by (simp only: s2 settled_step)
    with a12 a2(3) show ?thesis by (simp add: ids_avoided_def)
  qed
  show ?thesis
    using f1 f2 async_factory_result(5,6)[OF f1] diff later earlier
    unfolding s_def t_def u_def k1_def k2_def i1_def i2_def by blast
qed

lemmas async_eval_defs =
  newAsyncRuntime_def newAsyncContext_def newRuntime_def newContext_def
  newQuickJSAsyncWASMModule_def first_async_module_def second_module_def
  third_async_module_def

lemma example_runtime:
  "module_of_call (NewAsyncRuntime None) loads (run [] init) =
     (Inr first_async_module, init\<lparr>next_object := 1, next_instance := 1\<rparr>)"
  by (simp add: eval_defs loads_def async_eval_defs)

lemma example_context:
  "module_of_call (NewAsyncContext None) loads
     (run [CallGetQuickJS, FactoryCompletes 1 loads, RunMicrotask]
        (init\<lparr>next_object := 1, next_instance := 1\<rparr>)) =
     (Inr third_async_module,
      \<lparr>singleton = Some second_module, singletonPromise = Some 2,
       promises = [Pending [], Settled (Fulfilled second_module), Settled (Fulfilled second_module)],
       microtasks = [Job (AwaitReturn 0) (Fulfilled second_module)],
       constructions = [1], next_object = 3, next_instance = 3\<rparr>)"
  by (simp add: eval_defs loads_def async_eval_defs)

theorem async_calls_use_fresh_modules_witness:
  "module_of_call (NewAsyncRuntime None) loads (run [] init) =
     (Inr first_async_module, init\<lparr>next_object := 1, next_instance := 1\<rparr>)
   \<and> module_of_call (NewAsyncContext None) loads
       (run [CallGetQuickJS, FactoryCompletes 1 loads, RunMicrotask]
          (init\<lparr>next_object := 1, next_instance := 1\<rparr>)) =
     (Inr third_async_module,
      \<lparr>singleton = Some second_module, singletonPromise = Some 2,
       promises = [Pending [], Settled (Fulfilled second_module), Settled (Fulfilled second_module)],
       microtasks = [Job (AwaitReturn 0) (Fulfilled second_module)],
       constructions = [1], next_object = 3, next_instance = 3\<rparr>)
   \<and> singleton
        (run []
          \<lparr>singleton = Some second_module, singletonPromise = Some 2,
           promises = [Pending [], Settled (Fulfilled second_module), Settled (Fulfilled second_module)],
           microtasks = [Job (AwaitReturn 0) (Fulfilled second_module)],
           constructions = [1], next_object = 3, next_instance = 3\<rparr>)
       = Some second_module
   \<and> async_module_id first_async_module \<noteq> async_module_id third_async_module
   \<and> instance_id (async_wasm_module first_async_module)
       \<noteq> instance_id (async_wasm_module third_async_module)
   \<and> module_id second_module \<noteq> async_module_id first_async_module
   \<and> module_id second_module \<noteq> async_module_id third_async_module
   \<and> instance_id (wasm_module second_module)
       \<noteq> instance_id (async_wasm_module first_async_module)
   \<and> instance_id (wasm_module second_module)
       \<noteq> instance_id (async_wasm_module third_async_module)"
proof -
  have s: "singleton
        (run []
          \<lparr>singleton = Some second_module, singletonPromise = Some 2,
           promises = [Pending [], Settled (Fulfilled second_module), Settled (Fulfilled second_module)],
           microtasks = [Job (AwaitReturn 0) (Fulfilled second_module)],
           constructions = [1], next_object = 3, next_instance = 3\<rparr>)
       = Some second_module"
    by simp
  from async_calls_use_fresh_modules [OF example_runtime example_context, of "[]"] s
  show ?thesis
    using example_runtime example_context by blast
qed

section \<open>Sample executions for the claims about the shared module\<close>

lemma example_first_call: "getQuickJS (run [] init) = (0, one_call)"
  by (simp add: eval_defs one_call_def)

lemma example_second_call: "getQuickJS (run [] one_call) = (3, two_calls)"
  by (simp add: eval_defs one_call_def two_calls_def)

lemma example_both_resolved:
  "run [FactoryCompletes 1 loads, RunMicrotask, RunMicrotask, RunMicrotask] two_calls
   = both_resolved"
  by (simp add: eval_defs loads_def first_module_def two_calls_def both_resolved_def)

lemma example_one_resolved:
  "promise_at (run [FactoryCompletes 1 loads, RunMicrotask, RunMicrotask] one_call) 0
   = Some (Settled (Fulfilled first_module))"
  by (simp add: eval_defs loads_def first_module_def one_call_def)

theorem shared_module_created_once_and_kept_witness:
  "getQuickJS (run [] init) = (0, one_call)
   \<and> getQuickJS (run [] one_call) = (3, two_calls)
   \<and> CallGetQuickJS \<notin> set [RunMicrotask, CallGetQuickJSSync]
   \<and> constructions (run [RunMicrotask, CallGetQuickJSSync] init) = []
   \<and> promise_at
        (run [FactoryCompletes 1 loads, RunMicrotask, RunMicrotask, RunMicrotask] two_calls) 0
       = Some (Settled (Fulfilled first_module))
   \<and> promise_at
        (run [FactoryCompletes 1 loads, RunMicrotask, RunMicrotask, RunMicrotask] two_calls) 3
       = Some (Settled (Fulfilled first_module))
   \<and> singleton
        (run [FactoryCompletes 1 loads, RunMicrotask, RunMicrotask, RunMicrotask] two_calls)
       = Some first_module
   \<and> length (constructions
        (run [FactoryCompletes 1 loads, RunMicrotask, RunMicrotask, RunMicrotask] two_calls))
       = 1
   \<and> singleton
        (run [CallGetQuickJS, FactoryCompletes 1 loads]
          (run [FactoryCompletes 1 loads, RunMicrotask, RunMicrotask, RunMicrotask] two_calls))
       = Some first_module
   \<and> promise_at
        (drain
          (run [FactoryCompletes 1 loads, RunMicrotask, RunMicrotask, RunMicrotask] two_calls))
        3
       = Some (Settled (Fulfilled first_module))"
proof -
  have a: "promise_at both_resolved 0 = Some (Settled (Fulfilled first_module))"
    "promise_at both_resolved 3 = Some (Settled (Fulfilled first_module))"
    "singleton both_resolved = Some first_module"
    by (simp_all add: both_resolved_def promise_at_def)
  have b: "CallGetQuickJS \<notin> set [RunMicrotask, CallGetQuickJSSync]"
    by simp
  from shared_module_created_once_and_kept
    [OF example_first_call example_second_call,
      of "[RunMicrotask, CallGetQuickJSSync]"
         "[FactoryCompletes 1 loads, RunMicrotask, RunMicrotask, RunMicrotask]"
         "[CallGetQuickJS, FactoryCompletes 1 loads]"]
  show ?thesis
    unfolding example_both_resolved
    using a b example_first_call example_second_call by blast
qed

theorem sync_accessor_returns_resolved_instance_witness:
  "getQuickJS (run [] init) = (0, one_call)
   \<and> promise_at (run [FactoryCompletes 1 loads, RunMicrotask, RunMicrotask] one_call) 0
       = Some (Settled (Fulfilled first_module))
   \<and> getQuickJSSync
        (run [CallGetQuickJSSync, CallGetQuickJS]
          (run [FactoryCompletes 1 loads, RunMicrotask, RunMicrotask] one_call))
       = Inr first_module"
  using example_first_call example_one_resolved
    sync_accessor_returns_resolved_instance
      [OF example_first_call example_one_resolved, of "[CallGetQuickJSSync, CallGetQuickJS]"]
  by blast

lemma example_rejected_construction:
  "1 \<in> set (constructions
      (run [CallGetQuickJS, FactoryCompletes 1 (fails (Error ''no binary''))] init))"
  "promise_at (run [CallGetQuickJS, FactoryCompletes 1 (fails (Error ''no binary''))] init) 1
   = Some (Settled (Rejected (Error ''no binary'')))"
  unfolding example_rejected by (simp_all add: promise_at_def)

lemma example_call_after_rejection:
  "fst (getQuickJS
     (run [RunMicrotask]
       (run [CallGetQuickJS, FactoryCompletes 1 (fails (Error ''no binary''))] init))) = 3"
  unfolding example_rejected by (simp add: eval_defs)

theorem failed_initialization_is_cached_witness:
  "1 \<in> set (constructions
      (run [CallGetQuickJS, FactoryCompletes 1 (fails (Error ''no binary''))] init))
   \<and> promise_at (run [CallGetQuickJS, FactoryCompletes 1 (fails (Error ''no binary''))] init) 1
       = Some (Settled (Rejected (Error ''no binary'')))
   \<and> getQuickJSSync
        (run [RunMicrotask]
          (run [CallGetQuickJS, FactoryCompletes 1 (fails (Error ''no binary''))] init))
       = Inl (Error ''QuickJS not initialized. Await getQuickJS() at least once.'')
   \<and> constructions
        (snd (getQuickJS
          (run [RunMicrotask]
            (run [CallGetQuickJS, FactoryCompletes 1 (fails (Error ''no binary''))] init))))
       = [1]
   \<and> promise_at
        (drain
          (run [FactoryCompletes 1 loads]
            (snd (getQuickJS
              (run [RunMicrotask]
                (run [CallGetQuickJS, FactoryCompletes 1 (fails (Error ''no binary''))]
                   init))))))
        3
       = Some (Settled (Rejected (Error ''no binary'')))"
  using example_rejected_construction
    failed_initialization_is_cached
      [OF example_rejected_construction, of "[RunMicrotask]" "[FactoryCompletes 1 loads]"]
  unfolding example_call_after_rejection
  by blast

end
